theory Spec2Isabelle
  imports Complex_Main "HOL-Library.Sublist"
begin

section \<open>Python strings\<close>

text \<open>
  Texts are modelled as lists of 8-bit characters read as ASCII. \<open>lower\<close> is
  \<^verbatim>\<open>str.lower\<close>, \<open>is_space\<close> the characters \<^verbatim>\<open>str.isspace\<close>, \<^verbatim>\<open>str.strip\<close>,
  \<^verbatim>\<open>str.split\<close> and the regular-expression class \<^verbatim>\<open>\s\<close> treat as white space
  (codes 9 to 13, 28 to 31 and 32), \<open>is_word\<close> the class \<^verbatim>\<open>\w\<close>.
\<close>

definition lower_chr :: "char \<Rightarrow> char" where
  "lower_chr c = (let n = (of_char c :: nat) in if 65 \<le> n \<and> n \<le> 90 then char_of (n + 32) else c)"

definition upper_chr :: "char \<Rightarrow> char" where
  "upper_chr c = (let n = (of_char c :: nat) in if 97 \<le> n \<and> n \<le> 122 then char_of (n - 32) else c)"

definition lower :: "string \<Rightarrow> string" where
  "lower s = map lower_chr s"

definition is_space :: "char \<Rightarrow> bool" where
  "is_space c = (let n = (of_char c :: nat) in (9 \<le> n \<and> n \<le> 13) \<or> (28 \<le> n \<and> n \<le> 32))"

definition is_digit :: "char \<Rightarrow> bool" where
  "is_digit c = (let n = (of_char c :: nat) in 48 \<le> n \<and> n \<le> 57)"

definition is_word :: "char \<Rightarrow> bool" where
  "is_word c = (let n = (of_char c :: nat) in
     (48 \<le> n \<and> n \<le> 57) \<or> (65 \<le> n \<and> n \<le> 90) \<or> (97 \<le> n \<and> n \<le> 122) \<or> n = 95)"

definition strip :: "string \<Rightarrow> string" where
  "strip s = rev (dropWhile is_space (rev (dropWhile is_space s)))"

text \<open>\<^verbatim>\<open>k in s\<close>: \<open>k\<close> is a contiguous part of \<open>s\<close>.\<close>

fun py_in :: "string \<Rightarrow> string \<Rightarrow> bool" where
  "py_in k [] = (k = [])"
| "py_in k (c # cs) = (prefix k (c # cs) \<or> py_in k cs)"

text \<open>\<^verbatim>\<open>s.split()\<close>: the maximal runs of characters that are not white space.\<close>

fun split_ws_aux :: "string \<Rightarrow> string \<Rightarrow> string list" where
  "split_ws_aux w [] = (if w = [] then [] else [rev w])"
| "split_ws_aux w (c # cs) =
     (if is_space c then (if w = [] then split_ws_aux [] cs else rev w # split_ws_aux [] cs)
      else split_ws_aux (c # w) cs)"

definition split_ws :: "string \<Rightarrow> string list" where
  "split_ws s = split_ws_aux [] s"

text \<open>\<^verbatim>\<open>s.split(sep)\<close> for a separator that is not empty: the pieces between the
  occurrences of \<open>sep\<close>, found from the left and not overlapping.\<close>

fun split_on_aux :: "string \<Rightarrow> nat \<Rightarrow> string \<Rightarrow> string \<Rightarrow> string list" where
  "split_on_aux sep k w [] = [rev w]"
| "split_on_aux sep (Suc k) w (c # cs) = split_on_aux sep k w cs"
| "split_on_aux sep 0 w (c # cs) =
     (if prefix sep (c # cs) then rev w # split_on_aux sep (length sep - 1) [] cs
      else split_on_aux sep 0 (c # w) cs)"

definition split_on :: "string \<Rightarrow> string \<Rightarrow> string list" where
  "split_on sep s = split_on_aux sep 0 [] s"

section \<open>Regular expressions\<close>

text \<open>
  The fragment of Python's \<^verbatim>\<open>re\<close> syntax that the pattern tables of the analyzer use.
  Quantifiers apply to a single character set, as they do in every pattern of the
  tables; \<^verbatim>\<open>x*\<close> is \<open>Opt (Plus x)\<close> and a bounded repetition is written out.
  \<open>Grp\<close> marks a capturing group; the matcher below reports whole matches and does not
  track what a group captures.
\<close>

datatype item = Chr char | Rng char char | Dig | Spc | Wrd

datatype cset = Pos "item list" | Neg "item list"

datatype rx = Eps | Sym cset | Plus cset | Bnd
  | Cat rx rx | Alt rx rx | Opt rx | Grp rx

fun item_ok :: "item \<Rightarrow> char \<Rightarrow> bool" where
  "item_ok (Chr a) c = (c = a)"
| "item_ok (Rng a b) c = ((of_char a :: nat) \<le> of_char c \<and> (of_char c :: nat) \<le> of_char b)"
| "item_ok Dig c = is_digit c"
| "item_ok Spc c = is_space c"
| "item_ok Wrd c = is_word c"

text \<open>With \<^verbatim>\<open>re.IGNORECASE\<close> (\<open>ic\<close>) an item accepts a character when it accepts
  the character itself or its lower-case or upper-case form.\<close>

definition item_ok_ic :: "bool \<Rightarrow> item \<Rightarrow> char \<Rightarrow> bool" where
  "item_ok_ic ic it c =
     (item_ok it c \<or> (ic \<and> (item_ok it (lower_chr c) \<or> item_ok it (upper_chr c))))"

fun in_cset :: "bool \<Rightarrow> cset \<Rightarrow> char \<Rightarrow> bool" where
  "in_cset ic (Pos its) c = list_ex (\<lambda>it. item_ok_ic ic it c) its"
| "in_cset ic (Neg its) c = (\<not> list_ex (\<lambda>it. item_ok_ic ic it c) its)"

text \<open>
  A matcher state is the text that remains together with whether the character before it
  is a word character (what \<^verbatim>\<open>\b\<close> looks at). \<open>rx_ends\<close> lists the states in which
  a match of the pattern starting at the given state can end, in the order in which the
  backtracking matcher of \<^verbatim>\<open>re\<close> tries them: a quantifier is greedy, an alternation
  tries its left branch first. The first state of the list is the match \<^verbatim>\<open>re\<close> reports.
\<close>

type_synonym mstate = "bool \<times> string"

fun plus_ends :: "bool \<Rightarrow> cset \<Rightarrow> string \<Rightarrow> mstate list" where
  "plus_ends ic cs [] = []"
| "plus_ends ic cs (c # t) =
     (if in_cset ic cs c then plus_ends ic cs t @ [(is_word c, t)] else [])"

definition at_boundary :: "mstate \<Rightarrow> bool" where
  "at_boundary st = (fst st \<noteq> (case snd st of [] \<Rightarrow> False | c # _ \<Rightarrow> is_word c))"

primrec rx_ends :: "bool \<Rightarrow> rx \<Rightarrow> mstate \<Rightarrow> mstate list" where
  "rx_ends ic Eps st = [st]"
| "rx_ends ic (Sym cs) st =
     (case snd st of [] \<Rightarrow> []
      | c # t \<Rightarrow> if in_cset ic cs c then [(is_word c, t)] else [])"
| "rx_ends ic (Plus cs) st = plus_ends ic cs (snd st)"
| "rx_ends ic Bnd st = (if at_boundary st then [st] else [])"
| "rx_ends ic (Cat a b) st = concat (map (rx_ends ic b) (rx_ends ic a st))"
| "rx_ends ic (Alt a b) st = rx_ends ic a st @ rx_ends ic b st"
| "rx_ends ic (Opt a) st = rx_ends ic a st @ [st]"
| "rx_ends ic (Grp a) st = rx_ends ic a st"

text \<open>
  \<^verbatim>\<open>re.finditer\<close>: the spans \<open>(start, end)\<close> of the matches, scanning from the left; after
  a match the scan resumes at its end (\<open>k\<close> counts the characters still to skip), after an
  empty match or no match at the next character. No pattern of the tables matches the
  empty string.
\<close>

fun scan :: "bool \<Rightarrow> rx \<Rightarrow> nat \<Rightarrow> nat \<Rightarrow> bool \<Rightarrow> string \<Rightarrow> (nat \<times> nat) list" where
  "scan ic r pos k pw [] =
     (if k = 0 \<and> rx_ends ic r (pw, []) \<noteq> [] then [(pos, pos)] else [])"
| "scan ic r pos (Suc k) pw (c # cs) = scan ic r (Suc pos) k (is_word c) cs"
| "scan ic r pos 0 pw (c # cs) =
     (case rx_ends ic r (pw, c # cs) of
        [] \<Rightarrow> scan ic r (Suc pos) 0 (is_word c) cs
      | e # _ \<Rightarrow>
          (let n = Suc (length cs) - length (snd e)
           in (pos, pos + n) # scan ic r (Suc pos) (n - 1) (is_word c) cs))"

definition finditer :: "bool \<Rightarrow> rx \<Rightarrow> string \<Rightarrow> (nat \<times> nat) list" where
  "finditer ic r s = scan ic r 0 0 False s"

definition slice :: "string \<Rightarrow> nat \<Rightarrow> nat \<Rightarrow> string" where
  "slice s i j = take (j - i) (drop i s)"

text \<open>\<^verbatim>\<open>re.findall\<close> for a pattern without capturing groups: the matched texts.\<close>

definition findall :: "bool \<Rightarrow> rx \<Rightarrow> string \<Rightarrow> string list" where
  "findall ic r s = map (\<lambda>(i, j). slice s i j) (finditer ic r s)"

text \<open>Pattern notation: a literal text, an alternation of several branches.\<close>

definition Lit :: "string \<Rightarrow> rx" where
  "Lit s = foldr (\<lambda>c r. Cat (Sym (Pos [Chr c])) r) s Eps"

definition Alts :: "rx list \<Rightarrow> rx" where
  "Alts rs = foldr Alt (butlast rs) (last rs)"

definition Seq :: "rx list \<Rightarrow> rx" where
  "Seq rs = foldr Cat rs Eps"

definition Spaced :: "string list \<Rightarrow> rx" where
  "Spaced ws = foldr (\<lambda>w r. Cat (Lit w) (Cat (Plus (Pos [Spc])) r)) (butlast ws) (Lit (last ws))"

section \<open>The document classifier (classifier.py)\<close>

text \<open>
  \<open>document_patterns\<close> is the table of \<^verbatim>\<open>DocumentClassifier.__init__\<close>: for every
  document type its keywords, its patterns and its weight, in the order of declaration
  (a Python dictionary iterates in insertion order). \<open>Spaced [a, b]\<close> is the pattern
  \<^verbatim>\<open>a\s+b\<close>.
\<close>

type_synonym doc_rule = "string list \<times> rx list \<times> real"

definition document_patterns :: "(string \<times> doc_rule) list" where
  "document_patterns =
   [(''nda'',
     ([''non-disclosure'', ''confidentiality'', ''confidential information'',
       ''proprietary information'', ''trade secrets'', ''non-disclosure agreement'',
       ''confidentiality agreement'', ''secrecy agreement''],
      [Seq [Lit ''non'', Sym (Pos [Chr CHR ''-'', Chr CHR '' '']), Lit ''disclosure''],
       Seq [Lit ''confidential'', Opt (Lit ''ity'')],
       Spaced [''proprietary'', ''information''],
       Seq [Spaced [''trade'', ''secret''], Opt (Lit ''s'')]],
      1)),
    (''employment_contract'',
     ([''employment'', ''employee'', ''employer'', ''job'', ''position'',
       ''salary'', ''wages'', ''benefits'', ''termination'', ''resignation'',
       ''work schedule'', ''duties'', ''responsibilities''],
      [Seq [Lit ''employment'', Plus (Pos [Spc]), Alt (Lit ''agreement'') (Lit ''contract'')],
       Spaced [''employee'', ''handbook''],
       Spaced [''job'', ''description''],
       Spaced [''salary'', ''and'', ''benefits'']],
      1)),
    (''service_agreement'',
     ([''service'', ''services'', ''provider'', ''client'', ''customer'',
       ''deliverables'', ''scope of work'', ''statement of work'',
       ''professional services'', ''consulting''],
      [Spaced [''service'', ''agreement''],
       Spaced [''professional'', ''services''],
       Spaced [''scope'', ''of'', ''work''],
       Spaced [''statement'', ''of'', ''work'']],
      1)),
    (''lease_agreement'',
     ([''lease'', ''rent'', ''tenant'', ''landlord'', ''property'',
       ''premises'', ''rental'', ''lease term'', ''security deposit'',
       ''monthly rent''],
      [Spaced [''lease'', ''agreement''],
       Spaced [''rental'', ''agreement''],
       Spaced [''landlord'', ''and'', ''tenant''],
       Spaced [''monthly'', ''rent'']],
      1)),
    (''purchase_agreement'',
     ([''purchase'', ''sale'', ''buyer'', ''seller'', ''goods'',
       ''merchandise'', ''purchase price'', ''delivery'',
       ''payment terms'', ''invoice''],
      [Spaced [''purchase'', ''agreement''],
       Spaced [''sale'', ''agreement''],
       Spaced [''buyer'', ''and'', ''seller''],
       Spaced [''purchase'', ''price'']],
      1)),
    (''partnership_agreement'',
     ([''partnership'', ''partners'', ''joint venture'', ''collaboration'',
       ''profit sharing'', ''equity'', ''capital contribution'',
       ''management'', ''dissolution''],
      [Spaced [''partnership'', ''agreement''],
       Spaced [''joint'', ''venture''],
       Spaced [''profit'', ''sharing''],
       Spaced [''capital'', ''contribution'']],
      1)),
    (''license_agreement'',
     ([''license'', ''licensing'', ''licensor'', ''licensee'',
       ''intellectual property'', ''copyright'', ''trademark'',
       ''patent'', ''royalty'', ''usage rights''],
      [Spaced [''license'', ''agreement''],
       Spaced [''licensing'', ''agreement''],
       Spaced [''intellectual'', ''property''],
       Spaced [''usage'', ''rights'']],
      1)),
    (''loan_agreement'',
     ([''loan'', ''lender'', ''borrower'', ''principal'', ''interest'',
       ''repayment'', ''default'', ''collateral'', ''credit'',
       ''promissory note''],
      [Spaced [''loan'', ''agreement''],
       Spaced [''promissory'', ''note''],
       Spaced [''lender'', ''and'', ''borrower''],
       Spaced [''interest'', ''rate'']],
      1))]"

record score_entry =
  score :: real
  matched_keywords :: "string list"
  matched_patterns :: "string list"
  confidence :: real

record classification =
  predicted_type :: string
  confidence :: real
  is_confident :: bool
  all_scores :: "(string \<times> score_entry) list"
  matched_indicators :: "string list \<times> string list"

text \<open>The two inner loops of \<^verbatim>\<open>classify_document\<close>, over the keywords and over the
  patterns of one document type; the accumulator is the score and the list of matches.\<close>

fun keyword_loop :: "string \<Rightarrow> string list \<Rightarrow> real \<times> string list \<Rightarrow> real \<times> string list" where
  "keyword_loop text_lower [] acc = acc"
| "keyword_loop text_lower (keyword # ks) (sc, mk) =
     keyword_loop text_lower ks
       (if py_in (lower keyword) text_lower then (sc + 1, mk @ [keyword]) else (sc, mk))"

fun pattern_loop :: "string \<Rightarrow> rx list \<Rightarrow> real \<times> string list \<Rightarrow> real \<times> string list" where
  "pattern_loop text_lower [] acc = acc"
| "pattern_loop text_lower (pattern # ps) (sc, mp) =
     pattern_loop text_lower ps
       (let matches = findall False pattern text_lower
        in if matches \<noteq> [] then (sc + 2, mp @ matches) else (sc, mp))"

definition score_rule :: "string \<Rightarrow> doc_rule \<Rightarrow> score_entry" where
  "score_rule text_lower config =
     (case config of (keywords, patterns, weight) \<Rightarrow>
        (case keyword_loop text_lower keywords (0, []) of (s1, mk) \<Rightarrow>
        (case pattern_loop text_lower patterns (s1, []) of (s2, mp) \<Rightarrow>
           (let sc = s2 * weight
            in \<lparr>score = sc, matched_keywords = mk, matched_patterns = mp,
                confidence = min (sc / 10) 1\<rparr>))))"

text \<open>\<^verbatim>\<open>max(items, key=...)\<close>: the first item whose key no other item exceeds; an
  item replaces the current best only when its key is strictly greater.\<close>

fun max_by :: "('a \<Rightarrow> 'b::linorder) \<Rightarrow> 'a \<Rightarrow> 'a list \<Rightarrow> 'a" where
  "max_by key best [] = best"
| "max_by key best (x # xs) = max_by key (if key best < key x then x else best) xs"

definition fallback_classification :: classification where
  "fallback_classification =
     \<lparr>predicted_type = ''unknown'', confidence = 0, is_confident = False,
      all_scores = [], matched_indicators = ([], [])\<rparr>"

text \<open>
  \<^verbatim>\<open>classify_document\<close> over a rule table. With an empty table \<^verbatim>\<open>max\<close> raises
  \<^verbatim>\<open>ValueError\<close>, which the \<^verbatim>\<open>except\<close> branch turns into the fall-back result; nothing
  else in the body raises on a string.
\<close>

text \<open>The outer loop of \<^verbatim>\<open>classify_document\<close>: one entry of \<^verbatim>\<open>scores\<close> for every
  document type, in the order of the table.\<close>

fun score_all :: "string \<Rightarrow> (string \<times> doc_rule) list \<Rightarrow> (string \<times> score_entry) list" where
  "score_all text_lower [] = []"
| "score_all text_lower ((doc_type, config) # rest) =
     (doc_type, score_rule text_lower config) # score_all text_lower rest"

definition classify_with :: "(string \<times> doc_rule) list \<Rightarrow> string \<Rightarrow> classification" where
  "classify_with table text =
     (let text_lower = lower text;
          scores = score_all text_lower table
      in case scores of
           [] \<Rightarrow> fallback_classification
         | x # xs \<Rightarrow>
            (let best_match = max_by (\<lambda>it. score (snd it)) x xs;
                 threshold = 2;
                 confident = (threshold \<le> score (snd best_match))
             in \<lparr>predicted_type = (if confident then fst best_match else ''unknown''),
                 confidence = score_entry.confidence (snd best_match),
                 is_confident = confident,
                 all_scores = scores,
                 matched_indicators =
                   (matched_keywords (snd best_match), matched_patterns (snd best_match))\<rparr>))"

definition classify_document :: "string \<Rightarrow> classification" where
  "classify_document text = classify_with document_patterns text"

section \<open>The lightweight classifier (analyzer_minimal.py)\<close>

datatype py_error = ZeroDivisionError | ValueError | TypeError | AttributeError | OtherError

text \<open>The table \<^verbatim>\<open>document_patterns\<close> of \<^verbatim>\<open>MinimalLegalDocumentAnalyzer.__init__\<close>;
  \<^verbatim>\<open>.\<close> is any character but the newline.\<close>

definition minimal_document_patterns :: "(string \<times> rx list) list" where
  "minimal_document_patterns =
   [(''nda'',
     [Seq [Lit ''non'', Opt (Sym (Neg [Chr (CHR 0x0A)])), Lit ''disclosure''],
      Lit ''confidential'', Lit ''proprietary'', Lit ''trade secret'',
      Lit ''confidentiality agreement'']),
    (''employment_contract'',
     [Lit ''employment'', Lit ''employee'', Lit ''employer'', Lit ''salary'',
      Lit ''compensation'', Lit ''job description'', Lit ''work agreement'']),
    (''service_agreement'',
     [Lit ''service'', Lit ''provider'', Lit ''client'', Lit ''deliverable'',
      Lit ''scope of work'', Lit ''consulting'', Lit ''professional services'']),
    (''lease_agreement'',
     [Lit ''lease'', Lit ''rent'', Lit ''tenant'', Lit ''landlord'', Lit ''property'',
      Lit ''rental agreement'']),
    (''purchase_agreement'',
     [Lit ''purchase'', Lit ''buyer'', Lit ''seller'', Lit ''sale'', Lit ''goods'',
      Lit ''sales agreement''])]"

record minimal_classification =
  m_predicted_type :: string
  m_confidence :: real
  m_is_confident :: bool
  m_scores :: "(string \<times> int) list"

text \<open>The inner loop of \<^verbatim>\<open>_classify_document\<close>: the score of a type is the number of
  matches of its patterns.\<close>

fun count_loop :: "string \<Rightarrow> rx list \<Rightarrow> int \<Rightarrow> int" where
  "count_loop text_lower [] sc = sc"
| "count_loop text_lower (pattern # ps) sc =
     count_loop text_lower ps (sc + int (length (findall False pattern text_lower)))"

fun count_all :: "string \<Rightarrow> (string \<times> rx list) list \<Rightarrow> (string \<times> int) list" where
  "count_all text_lower [] = []"
| "count_all text_lower ((doc_type, patterns) # rest) =
     (doc_type, count_loop text_lower patterns 0) # count_all text_lower rest"

text \<open>\<^verbatim>\<open>scores.get(k, d)\<close> on the dictionary as a list of its items.\<close>

definition dict_get :: "(string \<times> 'v) list \<Rightarrow> string \<Rightarrow> 'v \<Rightarrow> 'v" where
  "dict_get d k dflt = (case map_of d k of None \<Rightarrow> dflt | Some v \<Rightarrow> v)"

text \<open>
  \<^verbatim>\<open>_classify_document\<close> over a rule table. The division
  \<^verbatim>\<open>max_score / (len(text.split()) / 100)\<close> raises \<^verbatim>\<open>ZeroDivisionError\<close> when the text has
  no word.
\<close>

definition minimal_classify_with ::
    "(string \<times> rx list) list \<Rightarrow> string \<Rightarrow> py_error + minimal_classification" where
  "minimal_classify_with table text =
     (let text_lower = lower text;
          scores = count_all text_lower table;
          predicted = (case map fst scores of
                         [] \<Rightarrow> ''unknown''
                       | k # ks \<Rightarrow> max_by (\<lambda>k. dict_get scores k 0) k ks);
          max_score = dict_get scores predicted 0;
          words = real (length (split_ws text)) / 100
      in if words = 0 then Inl ZeroDivisionError
         else (let conf = min (real_of_int max_score / words) 1
               in Inr \<lparr>m_predicted_type = predicted, m_confidence = conf,
                       m_is_confident = (0.3 < conf), m_scores = scores\<rparr>))"

definition minimal_classify_document :: "string \<Rightarrow> py_error + minimal_classification" where
  "minimal_classify_document text = minimal_classify_with minimal_document_patterns text"

section \<open>Clause extraction (parser.py)\<close>

text \<open>The loop of \<^verbatim>\<open>extract_clauses\<close> over the clause indicators: the first indicator
  that splits the text into more than one part gives the clauses, the parts stripped and
  the empty ones left out.\<close>

fun indicator_loop :: "string \<Rightarrow> string list \<Rightarrow> string list" where
  "indicator_loop current_text [] = []"
| "indicator_loop current_text (indicator # rest) =
     (let parts = split_on indicator current_text
      in if 1 < length parts then filter (\<lambda>part. part \<noteq> []) (map strip parts)
         else indicator_loop current_text rest)"

definition clause_indicators :: "string list" where
  "clause_indicators = [[CHR 0x0A, CHR 0x0A], ''. '', ''; '']"

definition extract_clauses :: "string \<Rightarrow> string list" where
  "extract_clauses text =
     (let found = indicator_loop text clause_indicators;
          clauses = (if found = [] then [strip text] else found);
          meaningful_clauses = filter (\<lambda>clause. 50 < length clause) clauses
      in if meaningful_clauses \<noteq> [] then meaningful_clauses else clauses)"

section \<open>The optimized orchestrator (analyzer_optimized.py)\<close>

text \<open>Python's slice \<^verbatim>\<open>s[i:j]\<close> and \<^verbatim>\<open>s.rfind(c, i, j)\<close> for a single character: a
  negative index counts from the end, and an index is clipped to the text.\<close>

definition py_index :: "nat \<Rightarrow> int \<Rightarrow> nat" where
  "py_index n i = (if i < 0 then nat (max (i + int n) 0) else min (nat i) n)"

definition py_slice :: "string \<Rightarrow> int \<Rightarrow> int \<Rightarrow> string" where
  "py_slice s i j = (let lo = py_index (length s) i; hi = py_index (length s) j
                     in take (hi - lo) (drop lo s))"

definition py_rfind :: "string \<Rightarrow> char \<Rightarrow> int \<Rightarrow> int \<Rightarrow> int" where
  "py_rfind s c i j =
     (let lo = py_index (length s) i; hi = py_index (length s) j
      in case filter (\<lambda>p. s ! p = c) (rev [lo..<hi]) of [] \<Rightarrow> - 1 | p # _ \<Rightarrow> int p)"

text \<open>
  The loop of \<^verbatim>\<open>_chunk_text\<close>. With other arguments than the caller's the loop can run
  for ever (an overlap as large as the chunk), so it is a partial function: \<open>None\<close> is
  not returning.
\<close>

partial_function (option) chunk_loop ::
    "string \<Rightarrow> int \<Rightarrow> int \<Rightarrow> int \<Rightarrow> string list \<Rightarrow> string list option" where
  "chunk_loop text chunk_size overlap start chunks =
     (if start < int (length text) then
        (let end0 = start + chunk_size;
             end1 = (if end0 < int (length text)
                     then (let sentence_end = py_rfind text (CHR ''.'') (end0 - 200) end0
                           in if sentence_end \<noteq> - 1 then sentence_end + 1 else end0)
                     else end0)
         in chunk_loop text chunk_size overlap
              (if end1 < int (length text) then end1 - overlap else end1)
              (chunks @ [py_slice text start end1]))
      else Some chunks)"

declare chunk_loop.simps [code]

definition chunk_text :: "string \<Rightarrow> int \<Rightarrow> int \<Rightarrow> string list option" where
  "chunk_text text chunk_size overlap = chunk_loop text chunk_size overlap 0 []"

text \<open>The loop of \<^verbatim>\<open>_deduplicate_clauses\<close>; \<open>unique_clauses\<close> is the list built so far.\<close>

fun dedup_loop :: "string list \<Rightarrow> string list \<Rightarrow> string list" where
  "dedup_loop unique_clauses [] = unique_clauses"
| "dedup_loop unique_clauses (clause # rest) =
     (let clause_start = strip (take 100 clause);
          is_duplicate = list_ex (\<lambda>existing. strip (take 100 existing) = clause_start) unique_clauses
      in dedup_loop (if \<not> is_duplicate then unique_clauses @ [clause] else unique_clauses) rest)"

definition deduplicate_clauses :: "string list \<Rightarrow> string list" where
  "deduplicate_clauses clauses = dedup_loop [] clauses"

text \<open>\<^verbatim>\<open>_extract_clauses_async\<close>: \<^verbatim>\<open>asyncio.gather\<close> returns the clause lists of the chunks
  in the order of the chunks, whichever task ends first.\<close>

definition extract_clauses_async :: "string \<Rightarrow> string list option" where
  "extract_clauses_async text =
     (if 10000 < length text then
        (case chunk_text text 5000 500 of
           None \<Rightarrow> None
         | Some chunks \<Rightarrow> Some (deduplicate_clauses (concat (map extract_clauses chunks))))
      else Some (extract_clauses text))"

text \<open>
  \<^verbatim>\<open>_simplify_clauses_batch_async\<close>. The simplifier is the language-model back end; here it
  is the parameter \<open>run\<close>, which for the clause at a position of the list returns a result
  (\<open>Inr\<close>) or raises (\<open>Inl\<close>). \<^verbatim>\<open>gather(..., return_exceptions=True)\<close> returns the outcomes
  of a batch in the order of its clauses. \<^verbatim>\<open>range(0, n, 0)\<close> raises \<^verbatim>\<open>ValueError\<close>, which
  the \<^verbatim>\<open>except\<close> branch turns into the empty list; a negative step gives an empty range.
\<close>

definition batch_results :: "(nat \<Rightarrow> string \<Rightarrow> 'e + 'r) \<Rightarrow> string list \<Rightarrow> nat \<Rightarrow> nat \<Rightarrow> ('e + 'r) list" where
  "batch_results run clauses i batch_size =
     (let batch = take batch_size (drop i clauses)
      in map (\<lambda>(j, clause). run j clause) (zip [i..<i + length batch] batch))"

fun successes :: "('e + 'r) list \<Rightarrow> 'r list" where
  "successes [] = []"
| "successes (Inl e # rs) = successes rs"
| "successes (Inr r # rs) = r # successes rs"

function batch_loop ::
    "(nat \<Rightarrow> string \<Rightarrow> 'e + 'r) \<Rightarrow> string list \<Rightarrow> nat \<Rightarrow> nat \<Rightarrow> nat \<Rightarrow> 'r list \<Rightarrow> 'r list" where
  "batch_loop run clauses batch_size stop i simplified_clauses =
     (if i < stop \<and> 0 < batch_size then
        batch_loop run clauses batch_size stop (i + batch_size)
          (simplified_clauses @ successes (batch_results run clauses i batch_size))
      else simplified_clauses)"
  by pat_completeness auto
termination
  by (relation "measure (\<lambda>(run, clauses, batch_size, stop, i, acc). stop - i)") auto

definition simplify_clauses_batch_async ::
    "(nat \<Rightarrow> string \<Rightarrow> 'e + 'r) \<Rightarrow> string list \<Rightarrow> int \<Rightarrow> 'r list" where
  "simplify_clauses_batch_async run clauses batch_size =
     (if batch_size \<le> 0 then []
      else batch_loop run clauses (nat batch_size) (min (length clauses) 10) 0 [])"

section \<open>Entity extraction (ner.py)\<close>

text \<open>
  Python's \<^verbatim>\<open>re\<close> module is outside the repository. The extractors below take it as a
  parameter: an engine maps the flag \<^verbatim>\<open>re.IGNORECASE\<close>, a pattern and a text to the list
  of match objects of \<^verbatim>\<open>re.finditer\<close>, or raises. A match object is its span and its
  groups (\<open>None\<close> for a group that took no part in the match). \<open>re_finditer\<close> is the engine
  of the matcher above; it is used where only whole matches are read.
\<close>

record rmatch =
  m_start :: nat
  m_end :: nat
  m_groups :: "string option list"

type_synonym engine = "bool \<Rightarrow> rx \<Rightarrow> string \<Rightarrow> py_error + rmatch list"

definition re_finditer :: engine where
  "re_finditer ic p s =
     Inr (map (\<lambda>(i, j). \<lparr>m_start = i, m_end = j, m_groups = []\<rparr>) (finditer ic p s))"

text \<open>Pattern notation: \<^verbatim>\<open>x{m,m+k}\<close> for a character set, and the sets and pieces that
  recur in the tables.\<close>

fun opts :: "nat \<Rightarrow> cset \<Rightarrow> rx" where
  "opts 0 cs = Eps"
| "opts (Suc k) cs = Opt (Cat (Sym cs) (opts k cs))"

definition Rep :: "nat \<Rightarrow> nat \<Rightarrow> cset \<Rightarrow> rx" where
  "Rep m k cs = foldr Cat (replicate m (Sym cs)) (opts k cs)"

definition Lits :: "string list \<Rightarrow> rx" where
  "Lits ws = Alts (map Lit ws)"

definition dig :: cset where "dig = Pos [Dig]"
definition spc :: cset where "spc = Pos [Spc]"
definition upper_az :: item where "upper_az = Rng (CHR ''A'') (CHR ''Z'')"
definition lower_az :: item where "lower_az = Rng (CHR ''a'') (CHR ''z'')"
definition digit_09 :: item where "digit_09 = Rng (CHR ''0'') (CHR ''9'')"

text \<open>\<^verbatim>\<open>x?\<close> after a literal text: \<open>Lit_opt ''Inc'' ''.''\<close> is \<^verbatim>\<open>Inc\.?\<close>.\<close>

definition Lit_opt :: "string \<Rightarrow> string \<Rightarrow> rx" where
  "Lit_opt w x = Cat (Lit w) (Opt (Lit x))"

definition month_names :: rx where
  "month_names = Lits [''January'', ''February'', ''March'', ''April'', ''May'', ''June'',
     ''July'', ''August'', ''September'', ''October'', ''November'', ''December'']"

definition company_suffix :: rx where
  "company_suffix = Alts [Lit_opt ''Inc'' ''.'', Lit ''LLC'', Lit_opt ''Corp'' ''.'',
     Lit ''Corporation'', Lit ''Company'', Lit_opt ''Ltd'' ''.'', Lit ''Limited'']"

definition time_units :: rx where
  "time_units = Alts [Lit_opt ''day'' ''s'', Lit_opt ''week'' ''s'', Lit_opt ''month'' ''s'',
     Lit_opt ''year'' ''s'']"

definition date_sep :: rx where
  "date_sep = Sym (Pos [Chr (CHR ''/''), Chr (CHR ''-'')])"

definition phone_sep :: rx where
  "phone_sep = Opt (Sym (Pos [Chr (CHR ''-''), Chr (CHR ''.'')]))"

definition email_pattern :: rx where
  "email_pattern =
     Seq [Bnd,
          Plus (Pos [upper_az, lower_az, digit_09, Chr (CHR ''.''), Chr (CHR ''_''),
                     Chr (CHR ''%''), Chr (CHR ''+''), Chr (CHR ''-'')]),
          Lit ''@'',
          Plus (Pos [upper_az, lower_az, digit_09, Chr (CHR ''.''), Chr (CHR ''-'')]),
          Lit ''.'',
          Sym (Pos [upper_az, Chr (CHR ''|''), lower_az]),
          Plus (Pos [upper_az, Chr (CHR ''|''), lower_az]),
          Bnd]"

definition phone_pattern :: rx where
  "phone_pattern = Seq [Bnd, Rep 3 0 dig, phone_sep, Rep 3 0 dig, phone_sep, Rep 4 0 dig, Bnd]"

definition numeric_date_pattern :: rx where
  "numeric_date_pattern =
     Seq [Bnd, Rep 1 1 dig, date_sep, Rep 1 1 dig, date_sep, Rep 2 2 dig, Bnd]"

text \<open>The table \<^verbatim>\<open>self.patterns\<close> of \<^verbatim>\<open>LegalNER.__init__\<close>, in the order of declaration.\<close>

definition ner_patterns :: "(string \<times> rx list) list" where
  "ner_patterns =
   [(''dates'',
     [numeric_date_pattern,
      Seq [Bnd, Rep 1 1 dig, Plus spc, Grp month_names, Plus spc, Rep 2 2 dig, Bnd],
      Seq [Bnd, Grp month_names, Plus spc, Rep 1 1 dig, Opt (Lit '',''), Plus spc,
           Rep 2 2 dig, Bnd]]),
    (''monetary_values'',
     [Seq [Lit ''$'', Plus (Pos [Dig, Chr (CHR '','')]), Opt (Lit ''.''), Opt (Plus dig)],
      Seq [Bnd, Plus dig, Opt (Plus spc), Lit_opt ''dollar'' ''s'', Bnd],
      Seq [Bnd, Plus dig, Opt (Plus spc), Lit ''USD'', Bnd]]),
    (''parties'',
     [Seq [Bnd, Sym (Pos [upper_az]), Plus (Pos [lower_az]), Plus spc,
           Sym (Pos [upper_az]), Plus (Pos [lower_az]), Opt (Plus spc),
           Opt company_suffix, Bnd],
      Seq [Bnd, Opt (Cat (Lit ''The'') (Plus spc)), Sym (Pos [upper_az]),
           Plus (Pos [upper_az, lower_az, Spc, Chr (CHR ''&'')]), company_suffix, Bnd]]),
    (''addresses'',
     [Seq [Bnd, Plus dig, Plus spc, Plus (Pos [upper_az, lower_az, Spc]),
           Alts [Lit ''Street'', Lit_opt ''St'' ''.'', Lit ''Avenue'', Lit_opt ''Ave'' ''.'',
                 Lit ''Road'', Lit_opt ''Rd'' ''.'', Lit ''Boulevard'', Lit_opt ''Blvd'' ''.'',
                 Lit ''Drive'', Lit_opt ''Dr'' ''.'', Lit ''Lane'', Lit_opt ''Ln'' ''.'',
                 Lit ''Way'', Lit ''Court'', Lit_opt ''Ct'' ''.''],
           Bnd]]),
    (''phone_numbers'',
     [phone_pattern,
      Seq [Lit ''('', Rep 3 0 dig, Lit '')'', Opt (Plus spc), Rep 3 0 dig, phone_sep,
           Rep 4 0 dig, Bnd]]),
    (''email_addresses'', [email_pattern]),
    (''legal_terms'',
     [Seq [Bnd,
           Lits [''whereas'', ''therefore'', ''hereby'', ''herein'', ''hereof'', ''hereunder'',
                 ''notwithstanding'', ''pursuant'', ''covenant'', ''indemnify'', ''liability'',
                 ''breach'', ''termination'', ''confidential'', ''proprietary''],
           Bnd]]),
    (''obligations'',
     [Seq [Bnd,
           Lits [''shall'', ''must'', ''will'', ''agree to'', ''required to'', ''obligated to'',
                 ''responsible for''],
           Bnd, Opt (Plus (Neg [Chr (CHR ''.'')]))]]),
    (''durations'',
     [Seq [Bnd, Plus dig, Opt (Plus spc), time_units, Bnd],
      Seq [Bnd,
           Lits [''one'', ''two'', ''three'', ''four'', ''five'', ''six'', ''seven'', ''eight'',
                 ''nine'', ''ten''],
           Plus spc, time_units, Bnd]])]"

record entity =
  ent_text :: string
  ent_start :: nat
  ent_end :: nat
  ent_confidence :: real
  ent_context :: string

text \<open>\<^verbatim>\<open>_get_context\<close>; \<open>start - context_size\<close> on natural numbers is
  \<^verbatim>\<open>max(0, start - context_size)\<close>.\<close>

definition get_context :: "string \<Rightarrow> nat \<Rightarrow> nat \<Rightarrow> nat \<Rightarrow> string" where
  "get_context text start stop context_size =
     (let context_start = start - context_size;
          context_end = min (length text) (stop + context_size)
      in strip (slice text context_start context_end))"

definition make_entity :: "string \<Rightarrow> rmatch \<Rightarrow> entity" where
  "make_entity text m =
     \<lparr>ent_text = slice text (m_start m) (m_end m), ent_start = m_start m, ent_end = m_end m,
      ent_confidence = 0.8, ent_context = get_context text (m_start m) (m_end m) 50\<rparr>"

text \<open>The three nested loops of \<^verbatim>\<open>extract_entities\<close>: over the matches of a pattern,
  over the patterns of a family, over the families. A raise of the engine leaves all
  three.\<close>

fun entity_match_loop :: "string \<Rightarrow> rmatch list \<Rightarrow> entity list \<Rightarrow> entity list" where
  "entity_match_loop text [] found = found"
| "entity_match_loop text (m # ms) found =
     (let entity = make_entity text m
      in entity_match_loop text ms
           (if \<not> list_ex (\<lambda>e. lower (ent_text e) = lower (ent_text entity)) found
            then found @ [entity] else found))"

fun entity_pattern_loop ::
    "engine \<Rightarrow> string \<Rightarrow> rx list \<Rightarrow> entity list \<Rightarrow> py_error + entity list" where
  "entity_pattern_loop fi text [] found = Inr found"
| "entity_pattern_loop fi text (pattern # ps) found =
     (case fi True pattern text of
        Inl e \<Rightarrow> Inl e
      | Inr ms \<Rightarrow> entity_pattern_loop fi text ps (entity_match_loop text ms found))"

fun entity_family_loop ::
    "engine \<Rightarrow> string \<Rightarrow> (string \<times> rx list) list \<Rightarrow> (string \<times> entity list) list
      \<Rightarrow> py_error + (string \<times> entity list) list" where
  "entity_family_loop fi text [] entities = Inr entities"
| "entity_family_loop fi text ((entity_type, patterns) # rest) entities =
     (case entity_pattern_loop fi text patterns [] of
        Inl e \<Rightarrow> Inl e
      | Inr found \<Rightarrow> entity_family_loop fi text rest (entities @ [(entity_type, found)]))"

text \<open>\<^verbatim>\<open>extract_entities\<close>: the \<^verbatim>\<open>except\<close> branch returns the empty dictionary.\<close>

definition extract_entities_with ::
    "engine \<Rightarrow> (string \<times> rx list) list \<Rightarrow> string \<Rightarrow> (string \<times> entity list) list" where
  "extract_entities_with fi table text =
     (case entity_family_loop fi text table [] of Inl e \<Rightarrow> [] | Inr entities \<Rightarrow> entities)"

definition extract_entities :: "string \<Rightarrow> (string \<times> entity list) list" where
  "extract_entities text = extract_entities_with re_finditer ner_patterns text"

text \<open>The specialised extractors read the groups of a match.\<close>

definition party_indicators :: "rx list" where
  "party_indicators =
   [Seq [Lits [''between'', ''by and between''], Plus spc,
         Grp (Plus (Neg [Chr (CHR '','')])), Opt (Lit '',''), Plus spc,
         Lits [''and'', ''&''], Plus spc,
         Grp (Plus (Neg [Chr (CHR '',''), Chr (CHR 0x0A)]))],
    Seq [Lits [''party of the first part'', ''first party''],
         Plus (Pos [Chr (CHR '':''), Spc]),
         Grp (Plus (Neg [Chr (CHR '',''), Chr (CHR 0x0A)]))],
    Seq [Lits [''party of the second part'', ''second party''],
         Plus (Pos [Chr (CHR '':''), Spc]),
         Grp (Plus (Neg [Chr (CHR '',''), Chr (CHR 0x0A)]))],
    Seq [Lits [''client'', ''customer'', ''buyer'', ''seller'', ''lessor'', ''lessee'',
               ''employer'', ''employee''],
         Plus (Pos [Chr (CHR '':''), Spc]),
         Grp (Plus (Neg [Chr (CHR '',''), Chr (CHR 0x0A)]))]]"

definition obligation_patterns :: "rx list" where
  "obligation_patterns =
   [Seq [Lits [''shall'', ''must'', ''will'', ''agree to'', ''required to'', ''obligated to'',
               ''responsible for''],
         Plus spc, Grp (Plus (Neg [Chr (CHR ''.'')]))],
    Seq [Lits [''party'', ''parties''], Plus spc,
         Lits [''shall'', ''must'', ''will'', ''agree to''], Plus spc,
         Grp (Plus (Neg [Chr (CHR ''.'')]))],
    Seq [Alts [Lit_opt ''obligation'' ''s'', Lit ''duties'', Lit ''responsibilities''],
         Opt (Plus spc), Opt (Lit '':''), Opt (Plus spc),
         Grp (Plus (Neg [Chr (CHR ''.'')]))]]"

definition date_context_patterns :: "rx list" where
  "date_context_patterns =
   [Seq [Lits [''effective'', ''start'', ''begin'', ''commence'', ''end'', ''expire'',
               ''terminate'', ''due'', ''deadline'', ''by''],
         Plus spc, Opt (Lits [''date'', ''on'']), Opt (Plus spc), Opt (Lit '':''),
         Opt (Plus spc), Grp (Plus (Neg [Chr (CHR '',''), Chr (CHR 0x0A)]))],
    Seq [Lits [''within'', ''after'', ''before''], Plus spc,
         Grp (Seq [Plus dig, Opt (Plus spc), time_units])],
    Seq [Lits [''no later than'', ''not later than'', ''by''], Plus spc,
         Grp (Plus (Neg [Chr (CHR '',''), Chr (CHR 0x0A)]))]]"

record party =
  p_name :: string
  p_type :: string
  p_context :: string

record obligation =
  ob_text :: string
  ob_full_clause :: string
  ob_start :: nat
  ob_end :: nat
  ob_context :: string

record deadline =
  dl_text :: string
  dl_full_clause :: string
  dl_type :: string
  dl_context :: string

text \<open>\<^verbatim>\<open>extract_key_parties\<close>: a party for every group of a match that is present and,
  stripped, longer than two characters.\<close>

fun party_group_loop :: "string \<Rightarrow> rmatch \<Rightarrow> string option list \<Rightarrow> party list \<Rightarrow> party list" where
  "party_group_loop text m [] parties = parties"
| "party_group_loop text m (g # gs) parties =
     party_group_loop text m gs
       (case g of
          None \<Rightarrow> parties
        | Some grp \<Rightarrow>
            if grp \<noteq> [] \<and> 2 < length (strip grp)
            then parties @ [\<lparr>p_name = strip grp, p_type = ''party'',
                              p_context = get_context text (m_start m) (m_end m) 50\<rparr>]
            else parties)"

fun party_match_loop :: "string \<Rightarrow> rmatch list \<Rightarrow> party list \<Rightarrow> party list" where
  "party_match_loop text [] parties = parties"
| "party_match_loop text (m # ms) parties =
     party_match_loop text ms (party_group_loop text m (m_groups m) parties)"

fun party_pattern_loop :: "engine \<Rightarrow> string \<Rightarrow> rx list \<Rightarrow> party list \<Rightarrow> py_error + party list" where
  "party_pattern_loop fi text [] parties = Inr parties"
| "party_pattern_loop fi text (pattern # ps) parties =
     (case fi True pattern text of
        Inl e \<Rightarrow> Inl e
      | Inr ms \<Rightarrow> party_pattern_loop fi text ps (party_match_loop text ms parties))"

definition extract_key_parties :: "engine \<Rightarrow> string \<Rightarrow> party list" where
  "extract_key_parties fi text =
     (case party_pattern_loop fi text party_indicators [] of Inl e \<Rightarrow> [] | Inr parties \<Rightarrow> parties)"

text \<open>\<^verbatim>\<open>match.group(1) if len(match.groups()) > 0 else match.group()\<close>; \<^verbatim>\<open>.strip()\<close> on a
  group that is \<open>None\<close> raises \<^verbatim>\<open>AttributeError\<close>.\<close>

definition group1_or_match :: "string \<Rightarrow> rmatch \<Rightarrow> py_error + string" where
  "group1_or_match text m =
     (case m_groups m of
        [] \<Rightarrow> Inr (slice text (m_start m) (m_end m))
      | g # _ \<Rightarrow> (case g of None \<Rightarrow> Inl AttributeError | Some grp \<Rightarrow> Inr grp))"

fun obligation_match_loop :: "string \<Rightarrow> rmatch list \<Rightarrow> obligation list \<Rightarrow> py_error + obligation list" where
  "obligation_match_loop text [] obligations = Inr obligations"
| "obligation_match_loop text (m # ms) obligations =
     (case group1_or_match text m of
        Inl e \<Rightarrow> Inl e
      | Inr obligation_text \<Rightarrow>
          obligation_match_loop text ms
            (obligations @ [\<lparr>ob_text = strip obligation_text,
                              ob_full_clause = strip (slice text (m_start m) (m_end m)),
                              ob_start = m_start m, ob_end = m_end m,
                              ob_context = get_context text (m_start m) (m_end m) 50\<rparr>]))"

fun obligation_pattern_loop ::
    "engine \<Rightarrow> string \<Rightarrow> rx list \<Rightarrow> obligation list \<Rightarrow> py_error + obligation list" where
  "obligation_pattern_loop fi text [] obligations = Inr obligations"
| "obligation_pattern_loop fi text (pattern # ps) obligations =
     (case fi True pattern text of
        Inl e \<Rightarrow> Inl e
      | Inr ms \<Rightarrow>
          (case obligation_match_loop text ms obligations of
             Inl e \<Rightarrow> Inl e
           | Inr obs \<Rightarrow> obligation_pattern_loop fi text ps obs))"

definition extract_obligations :: "engine \<Rightarrow> string \<Rightarrow> obligation list" where
  "extract_obligations fi text =
     (case obligation_pattern_loop fi text obligation_patterns [] of
        Inl e \<Rightarrow> [] | Inr obligations \<Rightarrow> obligations)"

fun deadline_match_loop :: "string \<Rightarrow> rmatch list \<Rightarrow> deadline list \<Rightarrow> py_error + deadline list" where
  "deadline_match_loop text [] dates = Inr dates"
| "deadline_match_loop text (m # ms) dates =
     (case group1_or_match text m of
        Inl e \<Rightarrow> Inl e
      | Inr date_text \<Rightarrow>
          deadline_match_loop text ms
            (dates @ [\<lparr>dl_text = strip date_text,
                        dl_full_clause = strip (slice text (m_start m) (m_end m)),
                        dl_type = ''deadline'',
                        dl_context = get_context text (m_start m) (m_end m) 50\<rparr>]))"

fun deadline_pattern_loop ::
    "engine \<Rightarrow> string \<Rightarrow> rx list \<Rightarrow> deadline list \<Rightarrow> py_error + deadline list" where
  "deadline_pattern_loop fi text [] dates = Inr dates"
| "deadline_pattern_loop fi text (pattern # ps) dates =
     (case fi True pattern text of
        Inl e \<Rightarrow> Inl e
      | Inr ms \<Rightarrow>
          (case deadline_match_loop text ms dates of
             Inl e \<Rightarrow> Inl e
           | Inr ds \<Rightarrow> deadline_pattern_loop fi text ps ds))"

definition extract_dates_and_deadlines :: "engine \<Rightarrow> string \<Rightarrow> deadline list" where
  "extract_dates_and_deadlines fi text =
     (case deadline_pattern_loop fi text date_context_patterns [] of
        Inl e \<Rightarrow> [] | Inr dates \<Rightarrow> dates)"

record entity_summary =
  total_entities :: nat
  entity_types :: "string list"
  key_parties_count :: nat
  obligations_count :: nat
  dates_deadlines_count :: nat

record entity_analysis =
  an_entities :: "(string \<times> entity list) list"
  an_key_parties :: "party list"
  an_obligations :: "obligation list"
  an_dates_and_deadlines :: "deadline list"
  an_summary :: entity_summary

text \<open>
  \<^verbatim>\<open>analyze_document_entities\<close>. Its \<^verbatim>\<open>except\<close> branch raises again what its body raises;
  the four extractors it calls catch their own failures, and counting their results does
  not raise.
\<close>

definition analyze_body :: "engine \<Rightarrow> string \<Rightarrow> py_error + entity_analysis" where
  "analyze_body fi text =
     (let entities = extract_entities_with fi ner_patterns text;
          key_parties = extract_key_parties fi text;
          obligations = extract_obligations fi text;
          dates_deadlines = extract_dates_and_deadlines fi text;
          summary = \<lparr>total_entities = sum_list (map (\<lambda>(k, entity_list). length entity_list) entities),
                     entity_types = map fst entities,
                     key_parties_count = length key_parties,
                     obligations_count = length obligations,
                     dates_deadlines_count = length dates_deadlines\<rparr>
      in Inr \<lparr>an_entities = entities, an_key_parties = key_parties,
              an_obligations = obligations, an_dates_and_deadlines = dates_deadlines,
              an_summary = summary\<rparr>)"

definition analyze_document_entities :: "engine \<Rightarrow> string \<Rightarrow> py_error + entity_analysis" where
  "analyze_document_entities fi text =
     (case analyze_body fi text of Inl e \<Rightarrow> Inl e | Inr result \<Rightarrow> Inr result)"

section \<open>The other stages of the minimal analyzer (analyzer_minimal.py)\<close>

text \<open>\<^verbatim>\<open>re.sub\<close> with a replacement text without group references, and \<^verbatim>\<open>re.split\<close> for a
  pattern without groups: the text between the matches, with or without the replacement
  in between.\<close>

fun sub_spans :: "string \<Rightarrow> nat \<Rightarrow> (nat \<times> nat) list \<Rightarrow> string \<Rightarrow> string" where
  "sub_spans s pos [] repl = drop pos s"
| "sub_spans s pos ((i, j) # ms) repl = slice s pos i @ repl @ sub_spans s j ms repl"

definition re_sub :: "bool \<Rightarrow> rx \<Rightarrow> string \<Rightarrow> string \<Rightarrow> string" where
  "re_sub ic p repl s = sub_spans s 0 (finditer ic p s) repl"

fun split_spans :: "string \<Rightarrow> nat \<Rightarrow> (nat \<times> nat) list \<Rightarrow> string list" where
  "split_spans s pos [] = [drop pos s]"
| "split_spans s pos ((i, j) # ms) = slice s pos i # split_spans s j ms"

definition re_split :: "bool \<Rightarrow> rx \<Rightarrow> string \<Rightarrow> string list" where
  "re_split ic p s = split_spans s 0 (finditer ic p s)"

record text_statistics =
  word_count :: nat
  character_count :: nat
  sentence_count :: nat
  average_word_length :: real
  average_sentence_length :: real

text \<open>The set \<^verbatim>\<open>[^\w\s\.\,\;\:\!\?\-\(\)\[\]\"\'\/\$\%]\<close> of the characters that
  \<^verbatim>\<open>_preprocess_text\<close> removes; codes 0x22 and 0x27 are the two quotes.\<close>

definition disallowed :: cset where
  "disallowed = Neg [Wrd, Spc, Chr (CHR ''.''), Chr (CHR '',''), Chr (CHR '';''), Chr (CHR '':''),
     Chr (CHR ''!''), Chr (CHR ''?''), Chr (CHR ''-''), Chr (CHR ''(''), Chr (CHR '')''),
     Chr (CHR ''[''), Chr (CHR '']''), Chr (CHR 0x22), Chr (CHR 0x27), Chr (CHR ''/''),
     Chr (CHR ''$''), Chr (CHR ''%'')]"

definition sentence_end :: rx where
  "sentence_end = Plus (Pos [Chr (CHR ''.''), Chr (CHR ''!''), Chr (CHR ''?'')])"

definition minimal_preprocess_text :: "string \<Rightarrow> string \<times> text_statistics" where
  "minimal_preprocess_text text =
     (let cleaned0 = re_sub False (Plus spc) '' '' text;
          cleaned1 = re_sub False (Sym disallowed) [] cleaned0;
          cleaned_text = strip cleaned1;
          words = split_ws cleaned_text;
          sentences = re_split False sentence_end cleaned_text
      in (cleaned_text,
          \<lparr>word_count = length words,
           character_count = length cleaned_text,
           sentence_count = length (filter (\<lambda>s. strip s \<noteq> []) sentences),
           average_word_length =
             (if words \<noteq> [] then real (sum_list (map length words)) / real (length words) else 0),
           average_sentence_length =
             (if sentences \<noteq> [] then real (length words) / real (length sentences) else 0)\<rparr>))"

text \<open>
  \<^verbatim>\<open>_extract_entities\<close>. An entity is its text, its type and its confidence. The
  comprehension runs over \<^verbatim>\<open>set(matches)\<close>, whose order Python leaves open; the model
  lists the distinct matches in one order, and nothing below depends on it. In the two
  party patterns the one group spans the whole match, so \<^verbatim>\<open>findall\<close> returns the matches.
\<close>

type_synonym minimal_entity = "string \<times> string \<times> real"

definition entity_patterns :: "(string \<times> rx) list" where
  "entity_patterns =
   [(''monetary_values'',
     Seq [Lit ''$'', Plus (Pos [Dig, Chr (CHR '','')]), Opt (Seq [Lit ''.'', Rep 2 0 dig])]),
    (''dates'',
     Alt numeric_date_pattern
         (Seq [Bnd, month_names, Plus spc, Rep 1 1 dig, Opt (Lit '',''), Plus spc,
               Rep 4 0 dig, Bnd])),
    (''percentages'', Seq [Plus dig, Opt (Seq [Lit ''.'', Plus dig]), Lit ''%'']),
    (''phone_numbers'', phone_pattern),
    (''email_addresses'', email_pattern)]"

definition party_patterns :: "rx list" where
  "party_patterns =
   [Seq [Bnd,
         Grp (Seq [Sym (Pos [upper_az]), Plus (Pos [lower_az]), Lit '' '',
                   Lits [''Inc'', ''LLC'', ''Corp'', ''Corporation'', ''Company'', ''Ltd''],
                   Opt (Lit ''.'')]),
         Bnd],
    Seq [Bnd,
         Grp (Seq [Sym (Pos [upper_az]), Plus (Pos [lower_az]), Lit '' '',
                   Sym (Pos [upper_az]), Plus (Pos [lower_az])]),
         Bnd]]"

definition minimal_obligation_patterns :: "rx list" where
  "minimal_obligation_patterns =
   [Seq [Opt (Plus (Neg [Chr (CHR ''.'')])),
         Lits [''shall'', ''must'', ''will'', ''required to'', ''obligated to''],
         Opt (Plus (Neg [Chr (CHR ''.'')])), Lit ''.''],
    Seq [Opt (Plus (Neg [Chr (CHR ''.'')])),
         Lits [''agrees to'', ''undertakes to''],
         Opt (Plus (Neg [Chr (CHR ''.'')])), Lit ''.'']]"

record minimal_entities =
  me_entities :: "(string \<times> minimal_entity list) list"
  me_key_parties :: "(string \<times> string) list"
  me_obligations :: "(string \<times> string) list"
  me_dates_and_deadlines :: "minimal_entity list"

definition party_kind :: "string \<Rightarrow> string" where
  "party_kind m = (if list_ex (\<lambda>x. py_in x m) [''Inc'', ''LLC'', ''Corp'']
                   then ''organization'' else ''person'')"

definition minimal_extract_entities :: "string \<Rightarrow> minimal_entities" where
  "minimal_extract_entities text =
     (let entities =
            map (\<lambda>(entity_type, pattern).
                   (entity_type,
                    map (\<lambda>m. (m, entity_type, 0.8)) (remdups (findall True pattern text))))
                entity_patterns;
          key_parties =
            concat (map (\<lambda>pattern. map (\<lambda>m. (m, party_kind m))
                                         (take 5 (findall False pattern text)))
                        party_patterns);
          obligations =
            concat (map (\<lambda>pattern. map (\<lambda>m. (strip m, ''obligation''))
                                         (take 5 (findall True pattern text)))
                        minimal_obligation_patterns);
          dates_and_deadlines =
            map (\<lambda>date_match. (fst date_match, ''date'', 0.8)) (dict_get entities ''dates'' [])
      in \<lparr>me_entities = entities, me_key_parties = key_parties,
          me_obligations = obligations, me_dates_and_deadlines = dates_and_deadlines\<rparr>)"

text \<open>\<^verbatim>\<open>_extract_clauses\<close>.\<close>

definition numbered_marker :: rx where
  "numbered_marker = Seq [Lit [CHR 0x0A], Opt (Plus spc), Plus dig, Lit ''.'', Opt (Plus spc)]"

definition lettered_marker :: rx where
  "lettered_marker =
     Seq [Lit [CHR 0x0A], Opt (Plus spc), Sym (Pos [lower_az]), Lit '')'', Opt (Plus spc)]"

definition section_clauses :: "string list \<Rightarrow> string list" where
  "section_clauses sections =
     (if 1 < length sections
      then filter (\<lambda>clause. clause \<noteq> []) (map strip (drop 1 sections)) else [])"

definition minimal_extract_clauses :: "string \<Rightarrow> string list" where
  "minimal_extract_clauses text =
     (let clauses = section_clauses (re_split False numbered_marker text)
                    @ section_clauses (re_split False lettered_marker text);
          clauses = (if clauses = []
                     then filter (\<lambda>p. 50 < length p)
                            (map strip (split_on [CHR 0x0A, CHR 0x0A] text))
                     else clauses)
      in take 10 clauses)"

section \<open>The rule-based simplifier (simplifier_fallback.py)\<close>

text \<open>
  \<^verbatim>\<open>FallbackSimplifier.simplify_clause\<close>. The four methods that the body of its \<^verbatim>\<open>try\<close> calls
  are parameters of the model, each of which returns or raises; the claim about this
  function is about what happens when one of them raises. The key \<^verbatim>\<open>method\<close> of the
  result is the field \<open>method_name\<close>.
\<close>

record stages =
  apply_simplification_rules :: "string \<Rightarrow> py_error + string"
  generate_plain_english_summary :: "string \<Rightarrow> py_error + string"
  extract_key_points :: "string \<Rightarrow> py_error + string list"
  calculate_simplification_score :: "string \<Rightarrow> string \<Rightarrow> py_error + real"

record simplified =
  original_clause :: string
  simplified_clause :: string
  plain_english_summary :: string
  key_points :: "string list"
  simplification_score :: real
  method_name :: string

definition simplify_body :: "stages \<Rightarrow> string \<Rightarrow> py_error + simplified" where
  "simplify_body st clause =
     (let original = strip clause
      in case apply_simplification_rules st original of
           Inl e \<Rightarrow> Inl e
         | Inr simpl \<Rightarrow>
            (case generate_plain_english_summary st simpl of
               Inl e \<Rightarrow> Inl e
             | Inr plain_english \<Rightarrow>
                (case extract_key_points st simpl of
                   Inl e \<Rightarrow> Inl e
                 | Inr points \<Rightarrow>
                    (case calculate_simplification_score st original simpl of
                       Inl e \<Rightarrow> Inl e
                     | Inr sc \<Rightarrow>
                        Inr \<lparr>original_clause = original, simplified_clause = simpl,
                             plain_english_summary = plain_english, key_points = points,
                             simplification_score = sc, method_name = ''rule_based''\<rparr>))))"

definition simplify_clause :: "stages \<Rightarrow> string \<Rightarrow> simplified" where
  "simplify_clause st clause =
     (case simplify_body st clause of
        Inr result \<Rightarrow> result
      | Inl e \<Rightarrow>
          \<lparr>original_clause = clause, simplified_clause = clause,
           plain_english_summary = ''Unable to simplify this clause.'', key_points = [],
           simplification_score = 0, method_name = ''fallback''\<rparr>)"

section \<open>What the specification says, as predicates\<close>

text \<open>
  \<open>matches ic r pw w rest\<close>: the text \<open>w\<close> is a match of the pattern \<open>r\<close> when it is
  preceded by a word character exactly if \<open>pw\<close> and followed by \<open>rest\<close>.
  \<open>has_match\<close>: the pattern has a match somewhere in the text.
\<close>

definition prev_word :: "bool \<Rightarrow> string \<Rightarrow> bool" where
  "prev_word pw w = (if w = [] then pw else is_word (last w))"

primrec matches :: "bool \<Rightarrow> rx \<Rightarrow> bool \<Rightarrow> string \<Rightarrow> string \<Rightarrow> bool" where
  "matches ic Eps pw w rest = (w = [])"
| "matches ic (Sym cs) pw w rest = (\<exists>c. w = [c] \<and> in_cset ic cs c)"
| "matches ic (Plus cs) pw w rest = (w \<noteq> [] \<and> list_all (in_cset ic cs) w)"
| "matches ic Bnd pw w rest = (w = [] \<and> at_boundary (pw, rest))"
| "matches ic (Cat a b) pw w rest =
     (\<exists>u v. w = u @ v \<and> matches ic a pw u (v @ rest) \<and> matches ic b (prev_word pw u) v rest)"
| "matches ic (Alt a b) pw w rest = (matches ic a pw w rest \<or> matches ic b pw w rest)"
| "matches ic (Opt a) pw w rest = (matches ic a pw w rest \<or> w = [])"
| "matches ic (Grp a) pw w rest = matches ic a pw w rest"

definition has_match :: "bool \<Rightarrow> rx \<Rightarrow> string \<Rightarrow> bool" where
  "has_match ic r s =
     (\<exists>pre w post. s = pre @ w @ post \<and> matches ic r (prev_word False pre) w post)"

text \<open>The keyword occurs in the text when case is ignored.\<close>

definition occurs_ci :: "string \<Rightarrow> string \<Rightarrow> bool" where
  "occurs_ci keyword text = (\<exists>pre mid post. text = pre @ mid @ post \<and> lower mid = lower keyword)"

text \<open>The score the specification gives a document type.\<close>

definition contract_score :: "string \<Rightarrow> doc_rule \<Rightarrow> real" where
  "contract_score text config =
     (case config of (keywords, patterns, weight) \<Rightarrow>
        (1 * real (length (filter (\<lambda>k. occurs_ci k text) keywords))
         + 2 * real (length (filter (\<lambda>p. has_match False p (lower text)) patterns))) * weight)"

text \<open>\<open>first_max key ys i\<close>: position \<open>i\<close> is the earliest position of \<open>ys\<close> whose
  key is the greatest.\<close>

definition first_max :: "('a \<Rightarrow> 'b::linorder) \<Rightarrow> 'a list \<Rightarrow> nat \<Rightarrow> bool" where
  "first_max key ys i =
     (i < length ys \<and> (\<forall>j < length ys. key (ys ! j) \<le> key (ys ! i))
      \<and> (\<forall>j < i. key (ys ! j) < key (ys ! i)))"

text \<open>The score that \<^verbatim>\<open>classify_document\<close> reports for the \<open>j\<close>-th type of the table.\<close>

definition type_score :: "string \<Rightarrow> nat \<Rightarrow> real" where
  "type_score text j = score (snd (all_scores (classify_document text) ! j))"

text \<open>A pattern without \<^verbatim>\<open>\b\<close>: whether a text matches it does not depend on what is around
  the text.\<close>

primrec bnd_free :: "rx \<Rightarrow> bool" where
  "bnd_free Eps = True"
| "bnd_free (Sym cs) = True"
| "bnd_free (Plus cs) = True"
| "bnd_free Bnd = False"
| "bnd_free (Cat a b) = (bnd_free a \<and> bnd_free b)"
| "bnd_free (Alt a b) = (bnd_free a \<and> bnd_free b)"
| "bnd_free (Opt a) = bnd_free a"
| "bnd_free (Grp a) = bnd_free a"

text \<open>
  \<open>covers_from adv n start spans\<close>: the spans \<open>(start, end)\<close> of consecutive chunks of a
  text of length \<open>n\<close>. The first begins at \<open>start\<close>, every span is inside the text and not
  empty, the next span begins at least \<open>adv\<close> after the one before and not after its end,
  and the last span reaches the end of the text.
\<close>

fun covers_from :: "nat \<Rightarrow> nat \<Rightarrow> nat \<Rightarrow> (nat \<times> nat) list \<Rightarrow> bool" where
  "covers_from adv n start [] = (n \<le> start)"
| "covers_from adv n start ((s, e) # rest) =
     (s = start \<and> start < n \<and> start < e \<and>
      (case rest of
         [] \<Rightarrow> n \<le> e
       | (s2, e2) # rest2 \<Rightarrow> e < n \<and> start + adv \<le> s2 \<and> s2 \<le> e \<and> covers_from adv n s2 rest))"

text \<open>\<open>keep_first key u cs\<close>: the list \<open>u\<close>, followed by the elements of \<open>cs\<close> whose key
  occurs neither in \<open>u\<close> nor earlier in \<open>cs\<close>.\<close>

fun keep_first :: "('a \<Rightarrow> 'k) \<Rightarrow> 'a list \<Rightarrow> 'a list \<Rightarrow> 'a list" where
  "keep_first key u [] = u"
| "keep_first key u (c # cs) =
     keep_first key (if key c \<in> key ` set u then u else u @ [c]) cs"

text \<open>The candidates of an entity family: the matches of its patterns, pattern after
  pattern and for each pattern from the left of the text, as entity records.\<close>

definition entity_candidates :: "string \<Rightarrow> rx list \<Rightarrow> entity list" where
  "entity_candidates text patterns =
     concat (map (\<lambda>p. map (\<lambda>(i, j). make_entity text \<lparr>m_start = i, m_end = j, m_groups = []\<rparr>)
                         (finditer True p text))
                 patterns)"

text \<open>An engine that raises on the pattern \<open>bad\<close> and is \<open>re_finditer\<close> on every other
  pattern.\<close>

definition engine_failing_on :: "rx \<Rightarrow> engine" where
  "engine_failing_on bad ic p s = (if p = bad then Inl OtherError else re_finditer ic p s)"

text \<open>Some stage of \<^verbatim>\<open>simplify_clause\<close> raises when the body calls it.\<close>

definition stage_fails :: "stages \<Rightarrow> string \<Rightarrow> bool" where
  "stage_fails st clause =
     (case apply_simplification_rules st (strip clause) of
        Inl e \<Rightarrow> True
      | Inr s \<Rightarrow> isl (generate_plain_english_summary st s)
               \<or> isl (extract_key_points st s)
               \<or> isl (calculate_simplification_score st (strip clause) s))"

text \<open>Stages for an example: the substitution rewrites one word, the scan for key points
  raises.\<close>

definition failing_stages :: stages where
  "failing_stages =
     \<lparr>apply_simplification_rules = (\<lambda>s. Inr (if s = ''heretofore'' then ''before this'' else s)),
      generate_plain_english_summary = (\<lambda>s. Inr ''This clause contains important legal terms and conditions.''),
      extract_key_points = (\<lambda>s. Inl OtherError),
      calculate_simplification_score = (\<lambda>a b. Inr 0.1)\<rparr>"

text \<open>An example for the chunked path: two clauses whose first 100 characters differ
  only by a trailing blank, each followed by an empty line, then 10000 further
  characters without white space or punctuation.\<close>

definition example_clause_a :: string where
  "example_clause_a = replicate 99 (CHR ''x'') @ '' one tail that goes on a little''"

definition example_clause_b :: string where
  "example_clause_b = replicate 99 (CHR ''x'')"

definition example_text :: string where
  "example_text = example_clause_a @ [CHR 0x0A, CHR 0x0A] @ example_clause_b @ [CHR 0x0A, CHR 0x0A]
                    @ replicate 10000 (CHR ''y'')"

section \<open>The matcher finds exactly the matches\<close>

lemma prev_word_append: "prev_word (prev_word pw u) v = prev_word pw (u @ v)"
  by (simp add: prev_word_def)

lemma prev_word_Cons: "prev_word pw (c # w) = prev_word (is_word c) w"
  by (simp add: prev_word_def)

lemma plus_ends_set:
  "set (plus_ends ic cs s) =
     {(prev_word pw w, rest) | w rest. s = w @ rest \<and> w \<noteq> [] \<and> list_all (in_cset ic cs) w}"
proof (induction s arbitrary: pw)
  case Nil
  then show ?case by simp
next
  case (Cons c t)
  show ?case
  proof (cases "in_cset ic cs c")
    case False
    then show ?thesis by (auto simp: Cons_eq_append_conv)
  next
    case True
    have "set (plus_ends ic cs (c # t)) = insert (is_word c, t) (set (plus_ends ic cs t))"
      using True by simp
    also have "set (plus_ends ic cs t) =
      {(prev_word (is_word c) w, rest) | w rest. t = w @ rest \<and> w \<noteq> [] \<and> list_all (in_cset ic cs) w}"
      by (rule Cons.IH)
    also have "insert (is_word c, t) \<dots> =
      {(prev_word pw w, rest) | w rest. c # t = w @ rest \<and> w \<noteq> [] \<and> list_all (in_cset ic cs) w}"
      (is "?L = ?R")
    proof (rule set_eqI, rule iffI)
      fix x assume "x \<in> ?L"
      then consider "x = (is_word c, t)"
        | w rest where "x = (prev_word (is_word c) w, rest)" "t = w @ rest" "w \<noteq> []" "list_all (in_cset ic cs) w"
        by auto
      then show "x \<in> ?R"
      proof cases
        case 1
        have "x = (prev_word pw [c], t) \<and> c # t = [c] @ t \<and> [c] \<noteq> [] \<and> list_all (in_cset ic cs) [c]"
          using 1 True by (simp add: prev_word_def)
        then show ?thesis by blast
      next
        case 2
        have "x = (prev_word pw (c # w), rest) \<and> c # t = (c # w) @ rest \<and> c # w \<noteq> []
            \<and> list_all (in_cset ic cs) (c # w)"
          using 2 True by (simp add: prev_word_Cons)
        then show ?thesis by blast
      qed
    next
      fix x assume "x \<in> ?R"
      then obtain w rest where x: "x = (prev_word pw w, rest)" "c # t = w @ rest" "w \<noteq> []"
        "list_all (in_cset ic cs) w" by auto
      then obtain w' where w: "w = c # w'" "t = w' @ rest"
        by (cases w) auto
      show "x \<in> ?L"
      proof (cases "w' = []")
        case True
        then show ?thesis using x w by (simp add: prev_word_def)
      next
        case False
        then have "x = (prev_word (is_word c) w', rest) \<and> t = w' @ rest \<and> w' \<noteq> [] \<and> list_all (in_cset ic cs) w'"
          using x w by (simp add: prev_word_Cons)
        then show ?thesis by blast
      qed
    qed
    finally show ?thesis .
  qed
qed

lemma rx_ends_set:
  "set (rx_ends ic r (pw, s)) =
     {(prev_word pw w, rest) | w rest. s = w @ rest \<and> matches ic r pw w rest}"
proof (induction r arbitrary: pw s)
  case Eps
  then show ?case by (auto simp: prev_word_def)
next
  case (Sym cs)
  then show ?case by (cases s) (auto simp: prev_word_def)
next
  case (Plus cs)
  then show ?case using plus_ends_set [of ic cs s pw] by simp
next
  case Bnd
  then show ?case by (auto simp: prev_word_def)
next
  case (Cat a b)
  show ?case
  proof (rule set_eqI, rule iffI)
    fix x assume "x \<in> set (rx_ends ic (Cat a b) (pw, s))"
    then obtain m where m: "m \<in> set (rx_ends ic a (pw, s))" and x: "x \<in> set (rx_ends ic b m)"
      by auto
    from m obtain u s1 where u: "m = (prev_word pw u, s1)" "s = u @ s1" "matches ic a pw u s1"
      unfolding Cat.IH(1) by blast
    from x obtain v rest where v: "x = (prev_word (prev_word pw u) v, rest)" "s1 = v @ rest"
      "matches ic b (prev_word pw u) v rest"
      unfolding u(1) Cat.IH(2) by blast
    have "x = (prev_word pw (u @ v), rest) \<and> s = (u @ v) @ rest \<and> matches ic (Cat a b) pw (u @ v) rest"
      using u v by (auto simp: prev_word_append)
    then show "x \<in> {(prev_word pw w, rest) | w rest. s = w @ rest \<and> matches ic (Cat a b) pw w rest}"
      by blast
  next
    fix x assume "x \<in> {(prev_word pw w, rest) | w rest. s = w @ rest \<and> matches ic (Cat a b) pw w rest}"
    then obtain w rest where w: "x = (prev_word pw w, rest)" "s = w @ rest" "matches ic (Cat a b) pw w rest"
      by blast
    then obtain u v where uv: "w = u @ v" "matches ic a pw u (v @ rest)"
      "matches ic b (prev_word pw u) v rest" by auto
    have "(prev_word pw u, v @ rest) \<in> set (rx_ends ic a (pw, s))"
      unfolding Cat.IH(1) using uv w by auto
    moreover have "x \<in> set (rx_ends ic b (prev_word pw u, v @ rest))"
      unfolding Cat.IH(2) using uv w by (auto simp: prev_word_append)
    ultimately show "x \<in> set (rx_ends ic (Cat a b) (pw, s))"
      by auto
  qed
next
  case (Alt a b)
  then show ?case by auto
next
  case (Opt a)
  then show ?case by (auto simp: prev_word_def)
next
  case (Grp a)
  then show ?case by simp
qed

lemma scan_nonempty:
  "scan ic r pos k pw s \<noteq> [] \<longleftrightarrow>
     (\<exists>i. k \<le> i \<and> i \<le> length s \<and> rx_ends ic r (prev_word pw (take i s), drop i s) \<noteq> [])"
proof (induction ic r pos k pw s rule: scan.induct)
  case (1 ic r pos k pw)
  then show ?case by (auto simp: prev_word_def)
next
  case (2 ic r pos k pw c cs)
  have "(\<exists>i. Suc k \<le> i \<and> i \<le> length (c # cs) \<and> rx_ends ic r (prev_word pw (take i (c # cs)), drop i (c # cs)) \<noteq> [])
     \<longleftrightarrow> (\<exists>j. k \<le> j \<and> j \<le> length cs \<and> rx_ends ic r (prev_word (is_word c) (take j cs), drop j cs) \<noteq> [])"
    (is "?A \<longleftrightarrow> ?B")
  proof
    assume ?A
    then obtain i where i: "Suc k \<le> i" "i \<le> length (c # cs)"
      "rx_ends ic r (prev_word pw (take i (c # cs)), drop i (c # cs)) \<noteq> []" by blast
    then obtain j where j: "i = Suc j" by (cases i) auto
    then show ?B using i by (auto simp: prev_word_Cons intro!: exI[of _ j])
  next
    assume ?B
    then obtain j where "k \<le> j" "j \<le> length cs"
      "rx_ends ic r (prev_word (is_word c) (take j cs), drop j cs) \<noteq> []" by blast
    then show ?A by (auto simp: prev_word_Cons intro!: exI[of _ "Suc j"])
  qed
  then show ?case using 2 by simp
next
  case (3 ic r pos pw c cs)
  have split: "(\<exists>i. 0 \<le> i \<and> i \<le> length (c # cs) \<and> rx_ends ic r (prev_word pw (take i (c # cs)), drop i (c # cs)) \<noteq> [])
     \<longleftrightarrow> rx_ends ic r (pw, c # cs) \<noteq> [] \<or>
        (\<exists>j. j \<le> length cs \<and> rx_ends ic r (prev_word (is_word c) (take j cs), drop j cs) \<noteq> [])"
    (is "?A \<longleftrightarrow> ?H \<or> ?B")
  proof
    assume ?A
    then obtain i where i: "i \<le> length (c # cs)"
      "rx_ends ic r (prev_word pw (take i (c # cs)), drop i (c # cs)) \<noteq> []" by blast
    show "?H \<or> ?B"
    proof (cases i)
      case 0
      then show ?thesis using i by (simp add: prev_word_def)
    next
      case (Suc j)
      then show ?thesis using i by (auto simp: prev_word_Cons intro!: exI[of _ j])
    qed
  next
    assume "?H \<or> ?B"
    then show ?A
    proof
      assume ?H
      then show ?A by (auto simp: prev_word_def intro!: exI[of _ 0])
    next
      assume ?B
      then obtain j where "j \<le> length cs"
        "rx_ends ic r (prev_word (is_word c) (take j cs), drop j cs) \<noteq> []" by blast
      then show ?A by (auto simp: prev_word_Cons intro!: exI[of _ "Suc j"])
    qed
  qed
  show ?case
  proof (cases "rx_ends ic r (pw, c # cs)")
    case Nil
    then show ?thesis using 3(1) split by simp
  next
    case (Cons e es)
    then show ?thesis using split by (simp add: Let_def)
  qed
qed

lemma rx_ends_nonempty:
  "rx_ends ic r (pw, s) \<noteq> [] \<longleftrightarrow> (\<exists>w rest. s = w @ rest \<and> matches ic r pw w rest)"
proof -
  have "rx_ends ic r (pw, s) \<noteq> [] \<longleftrightarrow> set (rx_ends ic r (pw, s)) \<noteq> {}" by simp
  also have "\<dots> \<longleftrightarrow> (\<exists>w rest. s = w @ rest \<and> matches ic r pw w rest)"
    unfolding rx_ends_set by blast
  finally show ?thesis .
qed

lemma finditer_nonempty: "finditer ic r s \<noteq> [] \<longleftrightarrow> has_match ic r s"
proof -
  have "finditer ic r s \<noteq> [] \<longleftrightarrow>
    (\<exists>i. i \<le> length s \<and> (\<exists>w rest. drop i s = w @ rest \<and> matches ic r (prev_word False (take i s)) w rest))"
    unfolding finditer_def scan_nonempty rx_ends_nonempty by simp
  also have "\<dots> \<longleftrightarrow> has_match ic r s"
    unfolding has_match_def
  proof
    assume "\<exists>i. i \<le> length s \<and> (\<exists>w rest. drop i s = w @ rest \<and> matches ic r (prev_word False (take i s)) w rest)"
    then obtain i w rest where "i \<le> length s" "drop i s = w @ rest"
      "matches ic r (prev_word False (take i s)) w rest" by blast
    moreover have "s = take i s @ drop i s" by simp
    ultimately have "s = take i s @ w @ rest \<and> matches ic r (prev_word False (take i s)) w rest"
      by simp
    then show "\<exists>pre w post. s = pre @ w @ post \<and> matches ic r (prev_word False pre) w post"
      by blast
  next
    assume "\<exists>pre w post. s = pre @ w @ post \<and> matches ic r (prev_word False pre) w post"
    then obtain pre w post where "s = pre @ w @ post" "matches ic r (prev_word False pre) w post"
      by blast
    then have "length pre \<le> length s \<and> drop (length pre) s = w @ post
        \<and> matches ic r (prev_word False (take (length pre) s)) w post"
      by simp
    then show "\<exists>i. i \<le> length s \<and> (\<exists>w rest. drop i s = w @ rest \<and> matches ic r (prev_word False (take i s)) w rest)"
      by blast
  qed
  finally show ?thesis .
qed

lemma findall_nonempty: "findall ic r s \<noteq> [] \<longleftrightarrow> has_match ic r s"
  by (simp add: findall_def finditer_nonempty)

lemma py_in_iff: "py_in k s \<longleftrightarrow> (\<exists>pre post. s = pre @ k @ post)"
proof (induction s)
  case Nil
  then show ?case by auto
next
  case (Cons c cs)
  show ?case
  proof
    assume "py_in k (c # cs)"
    then consider "prefix k (c # cs)" | "py_in k cs" by auto
    then show "\<exists>pre post. c # cs = pre @ k @ post"
    proof cases
      case 1
      then obtain post where "c # cs = k @ post" by (auto simp: prefix_def)
      then have "c # cs = [] @ k @ post" by simp
      then show ?thesis by blast
    next
      case 2
      then obtain pre post where "cs = pre @ k @ post" using Cons.IH by blast
      then have "c # cs = (c # pre) @ k @ post" by simp
      then show ?thesis by blast
    qed
  next
    assume "\<exists>pre post. c # cs = pre @ k @ post"
    then obtain pre post where e: "c # cs = pre @ k @ post" by blast
    show "py_in k (c # cs)"
    proof (cases pre)
      case Nil
      then have "prefix k (c # cs)" using e by (simp add: prefix_def)
      then show ?thesis by simp
    next
      case (Cons a pre')
      then have "cs = pre' @ k @ post" using e by simp
      then have "py_in k cs" using Cons.IH by blast
      then show ?thesis by simp
    qed
  qed
qed

lemma map_eq_append_split:
  assumes "map f xs = ys @ zs"
  shows "\<exists>us vs. xs = us @ vs \<and> map f us = ys \<and> map f vs = zs"
proof -
  have "map f (take (length ys) xs) = take (length ys) (map f xs)" by (simp add: take_map)
  also have "\<dots> = ys" using assms by simp
  finally have 1: "map f (take (length ys) xs) = ys" .
  have "map f (drop (length ys) xs) = drop (length ys) (map f xs)" by (simp add: drop_map)
  also have "\<dots> = zs" using assms by simp
  finally have 2: "map f (drop (length ys) xs) = zs" .
  have "xs = take (length ys) xs @ drop (length ys) xs" by simp
  with 1 2 show ?thesis by blast
qed

lemma py_in_lower_iff: "py_in (lower keyword) (lower text) \<longleftrightarrow> occurs_ci keyword text"
proof
  assume "py_in (lower keyword) (lower text)"
  then obtain pre post where "lower text = pre @ lower keyword @ post"
    using py_in_iff by blast
  then have "map lower_chr text = pre @ (lower keyword @ post)" by (simp add: lower_def)
  then obtain a bc where a: "text = a @ bc" "map lower_chr a = pre" "map lower_chr bc = lower keyword @ post"
    using map_eq_append_split by blast
  from a(3) obtain b c where b: "bc = b @ c" "map lower_chr b = lower keyword"
    using map_eq_append_split by blast
  have "text = a @ b @ c \<and> lower b = lower keyword" using a b by (simp add: lower_def)
  then show "occurs_ci keyword text" unfolding occurs_ci_def by blast
next
  assume "occurs_ci keyword text"
  then obtain pre mid post where "text = pre @ mid @ post" "lower mid = lower keyword"
    unfolding occurs_ci_def by blast
  then have "lower text = lower pre @ lower keyword @ lower post" by (simp add: lower_def)
  then show "py_in (lower keyword) (lower text)" using py_in_iff by blast
qed

lemma keyword_loop_eq:
  "keyword_loop t ks (sc, mk) =
     (sc + real (length (filter (\<lambda>k. py_in (lower k) t) ks)),
      mk @ filter (\<lambda>k. py_in (lower k) t) ks)"
  by (induction ks arbitrary: sc mk) auto

lemma pattern_loop_fst:
  "fst (pattern_loop t ps (sc, mp)) =
     sc + 2 * real (length (filter (\<lambda>p. findall False p t \<noteq> []) ps))"
  by (induction ps arbitrary: sc mp) (auto simp: Let_def)

lemma score_rule_score:
  "score (score_rule (lower text) config) = contract_score text config"
proof -
  obtain kws patterns weight where c: "config = (kws, patterns, weight)"
    by (cases config) auto
  obtain s2 mp where p: "pattern_loop (lower text) patterns
      (real (length (filter (\<lambda>k. py_in (lower k) (lower text)) kws)),
       []) = (s2, mp)" by fastforce
  have "s2 = real (length (filter (\<lambda>k. py_in (lower k) (lower text)) kws))
     + 2 * real (length (filter (\<lambda>p. findall False p (lower text) \<noteq> []) patterns))"
    using pattern_loop_fst [of "lower text" patterns _ "[]"] p
    by (metis fst_conv)
  then show ?thesis
    using c p by (simp add: score_rule_def contract_score_def keyword_loop_eq Let_def
        py_in_lower_iff findall_nonempty)
qed


lemma first_max_step:
  assumes "first_max key ps i"
  shows "first_max key (ps @ [x]) (if key (ps ! i) < key x then length ps else i)"
proof -
  have i: "i < length ps" and le: "\<And>j. j < length ps \<Longrightarrow> key (ps ! j) \<le> key (ps ! i)"
    and lt: "\<And>j. j < i \<Longrightarrow> key (ps ! j) < key (ps ! i)"
    using assms by (auto simp: first_max_def)
  show ?thesis
  proof (cases "key (ps ! i) < key x")
    case True
    have "\<And>j. j < length ps \<Longrightarrow> key (ps ! j) < key x"
      using le True by fastforce
    then show ?thesis using True
      by (auto simp: first_max_def nth_append less_Suc_eq intro: less_imp_le)
  next
    case False
    then show ?thesis using i le lt
      by (auto simp: first_max_def nth_append less_Suc_eq)
  qed
qed

lemma max_by_first_max_gen:
  "first_max key ps i \<Longrightarrow>
     \<exists>i'. first_max key (ps @ xs) i' \<and> max_by key (ps ! i) xs = (ps @ xs) ! i'"
proof (induction xs arbitrary: ps i)
  case Nil
  then show ?case by auto
next
  case (Cons x xs)
  let ?i = "if key (ps ! i) < key x then length ps else i"
  have fm: "first_max key (ps @ [x]) ?i" using Cons.prems by (rule first_max_step)
  have nth: "(ps @ [x]) ! ?i = (if key (ps ! i) < key x then x else ps ! i)"
    using Cons.prems by (auto simp: first_max_def nth_append)
  from Cons.IH [OF fm] obtain i' where
    "first_max key ((ps @ [x]) @ xs) i'" "max_by key ((ps @ [x]) ! ?i) xs = ((ps @ [x]) @ xs) ! i'"
    by blast
  then show ?case using nth by auto
qed

lemma max_by_first_max:
  "\<exists>i. first_max key (x # xs) i \<and> max_by key x xs = (x # xs) ! i"
proof -
  have "first_max key [x] 0" by (simp add: first_max_def)
  from max_by_first_max_gen [OF this, of xs] show ?thesis by simp
qed

section \<open>C1: the scoring contract of the full classifier\<close>

lemma score_all_eq:
  "score_all t table = map (\<lambda>p. (fst p, score_rule t (snd p))) table"
  by (induction table) auto

lemma classify_with_shape:
  assumes "table \<noteq> []"
  shows "\<exists>i. first_max (\<lambda>e. score (snd e)) (score_all (lower text) table) i
    \<and> classify_with table text =
       \<lparr>predicted_type =
          (if 2 \<le> score (snd (score_all (lower text) table ! i))
           then fst (score_all (lower text) table ! i) else ''unknown''),
        confidence = score_entry.confidence (snd (score_all (lower text) table ! i)),
        is_confident = (2 \<le> score (snd (score_all (lower text) table ! i))),
        all_scores = score_all (lower text) table,
        matched_indicators =
          (matched_keywords (snd (score_all (lower text) table ! i)),
           matched_patterns (snd (score_all (lower text) table ! i)))\<rparr>"
proof -
  obtain x xs where sc: "score_all (lower text) table = x # xs"
    using assms by (cases table) auto
  obtain i where i: "first_max (\<lambda>e. score (snd e)) (x # xs) i"
      "max_by (\<lambda>e. score (snd e)) x xs = (x # xs) ! i"
    using max_by_first_max [of "\<lambda>e. score (snd e)" x xs] by blast
  have "classify_with table text =
       \<lparr>predicted_type =
          (if 2 \<le> score (snd ((x # xs) ! i)) then fst ((x # xs) ! i) else ''unknown''),
        confidence = score_entry.confidence (snd ((x # xs) ! i)),
        is_confident = (2 \<le> score (snd ((x # xs) ! i))),
        all_scores = x # xs,
        matched_indicators =
          (matched_keywords (snd ((x # xs) ! i)), matched_patterns (snd ((x # xs) ! i)))\<rparr>"
    unfolding classify_with_def Let_def sc list.case i(2) by simp
  then show ?thesis using i(1) unfolding sc by blast
qed


lemma document_patterns_nonempty: "document_patterns \<noteq> []"
  by (simp add: document_patterns_def)



section \<open>C2: ties go to the type declared first\<close>

lemma count_all_eq:
  "count_all t table = map (\<lambda>p. (fst p, count_loop t (snd p) 0)) table"
  by (induction table) auto

lemma dict_get_nth:
  assumes "distinct (map fst d)" "i < length d"
  shows "dict_get d (fst (d ! i)) dflt = snd (d ! i)"
proof -
  have "d ! i \<in> set d" using assms(2) by simp
  then have "map_of d (fst (d ! i)) = Some (snd (d ! i))"
    using assms(1) by (metis map_of_is_SomeI prod.collapse)
  then show ?thesis by (simp add: dict_get_def)
qed

lemma first_max_keys:
  assumes d: "distinct (map fst d)"
    and fm: "first_max (\<lambda>k. dict_get d k dflt) (map fst d) i"
  shows "first_max snd d i"
proof -
  have i: "i < length d" using fm by (simp add: first_max_def)
  have key: "\<And>j. j < length d \<Longrightarrow> dict_get d (map fst d ! j) dflt = snd (d ! j)"
    using dict_get_nth [OF d] by simp
  have fle: "\<forall>j < length (map fst d).
      dict_get d (map fst d ! j) dflt \<le> dict_get d (map fst d ! i) dflt"
    and flt: "\<forall>j < i. dict_get d (map fst d ! j) dflt < dict_get d (map fst d ! i) dflt"
    using fm unfolding first_max_def by blast+
  have le: "\<And>j. j < length d \<Longrightarrow> snd (d ! j) \<le> snd (d ! i)"
  proof -
    fix j assume j: "j < length d"
    then have "dict_get d (map fst d ! j) dflt \<le> dict_get d (map fst d ! i) dflt"
      using fle by simp
    then show "snd (d ! j) \<le> snd (d ! i)" using key [OF j] key [OF i] by simp
  qed
  have lt: "\<And>j. j < i \<Longrightarrow> snd (d ! j) < snd (d ! i)"
  proof -
    fix j assume j: "j < i"
    then have jl: "j < length d" using i by simp
    have "dict_get d (map fst d ! j) dflt < dict_get d (map fst d ! i) dflt"
      using flt j by simp
    then show "snd (d ! j) < snd (d ! i)" using key [OF jl] key [OF i] by simp
  qed
  show ?thesis using i le lt by (simp add: first_max_def)
qed

lemma minimal_classify_with_shape:
  assumes t: "table \<noteq> []" and d: "distinct (map fst table)" and w: "split_ws text \<noteq> []"
  shows "\<exists>r i. minimal_classify_with table text = Inr r
     \<and> m_scores r = count_all (lower text) table
     \<and> first_max snd (m_scores r) i
     \<and> m_predicted_type r = fst (table ! i)"
proof -
  let ?sc = "count_all (lower text) table"
  have keys: "map fst ?sc = map fst table" by (simp add: count_all_eq comp_def)
  obtain k ks where kk: "map fst ?sc = k # ks"
    using t keys by (cases "map fst ?sc") auto
  obtain i where i: "first_max (\<lambda>k. dict_get ?sc k 0) (k # ks) i"
      "max_by (\<lambda>k. dict_get ?sc k 0) k ks = (k # ks) ! i"
    using max_by_first_max [of "\<lambda>k. dict_get ?sc k 0" k ks] by blast
  have dsc: "distinct (map fst ?sc)" using d keys by simp
  have fm: "first_max snd ?sc i"
    using first_max_keys [OF dsc] i(1) kk by simp
  have il: "i < length table" using fm by (simp add: first_max_def count_all_eq)
  have pt: "(k # ks) ! i = fst (table ! i)"
    using kk keys il by (metis nth_map)
  have nz: "real (length (split_ws text)) / 100 \<noteq> 0" using w by simp
  have "minimal_classify_with table text =
      Inr \<lparr>m_predicted_type = fst (table ! i),
           m_confidence = min (real_of_int (dict_get ?sc (fst (table ! i)) 0)
                                / (real (length (split_ws text)) / 100)) 1,
           m_is_confident = (0.3 < min (real_of_int (dict_get ?sc (fst (table ! i)) 0)
                                / (real (length (split_ws text)) / 100)) 1),
           m_scores = ?sc\<rparr>"
    unfolding minimal_classify_with_def Let_def kk list.case i(2) pt
    using nz by simp
  then show ?thesis using fm by auto
qed

lemma minimal_table_ok:
  "minimal_document_patterns \<noteq> [] \<and> distinct (map fst minimal_document_patterns)"
  by (simp add: minimal_document_patterns_def)

lemma tie_example:
  "map (score \<circ> snd) (all_scores (classify_document ''lease agreement loan agreement'')) = [0, 0, 0, 3, 0, 0, 0, 3]
   \<and> predicted_type (classify_document ''lease agreement loan agreement'') = ''lease_agreement''"
  by code_simp

text \<open>
  Claim C2, as stated, fails where the best score is below the threshold: in
  \<^verbatim>\<open>lease loan\<close> the types \<^verbatim>\<open>lease_agreement\<close> and \<^verbatim>\<open>loan_agreement\<close> share the greatest
  score 1, and the predicted type is \<^verbatim>\<open>unknown\<close>, not \<^verbatim>\<open>lease_agreement\<close>.
\<close>

theorem tie_below_threshold_counterexample:
  "map (score \<circ> snd) (all_scores (classify_document ''lease loan'')) = [0, 0, 0, 1, 0, 0, 0, 1]
   \<and> map fst document_patterns ! 3 = ''lease_agreement''
   \<and> predicted_type (classify_document ''lease loan'') = ''unknown''"
  by code_simp

text \<open>
  Claim C2, amended. In the full classifier the best match, whose confidence and matched
  indicators are reported, is the earliest type of the table among those with the greatest
  score; the predicted type is that type when its score is at least 2 and \<^verbatim>\<open>unknown\<close>
  otherwise. In the lightweight classifier, for a text with at least one word, the
  predicted type is the earliest type of its table among those with the greatest score.
  Both are functions of the text, so a repeated run returns the same result.
\<close>

theorem tie_break_earliest_declared:
  "(\<exists>i. first_max (\<lambda>e. score (snd e)) (all_scores (classify_document text)) i
      \<and> i < length document_patterns
      \<and> confidence (classify_document text)
          = score_entry.confidence (snd (all_scores (classify_document text) ! i))
      \<and> matched_indicators (classify_document text)
          = (matched_keywords (snd (all_scores (classify_document text) ! i)),
             matched_patterns (snd (all_scores (classify_document text) ! i)))
      \<and> predicted_type (classify_document text)
          = (if 2 \<le> score (snd (all_scores (classify_document text) ! i))
             then fst (document_patterns ! i) else ''unknown''))
   \<and> (split_ws text \<noteq> [] \<longrightarrow>
        (\<exists>r i. minimal_classify_document text = Inr r
           \<and> map fst (m_scores r) = map fst minimal_document_patterns
           \<and> first_max snd (m_scores r) i
           \<and> m_predicted_type r = fst (minimal_document_patterns ! i)))"
proof -
  let ?sc = "score_all (lower text) document_patterns"
  obtain i where fm: "first_max (\<lambda>e. score (snd e)) ?sc i"
    and r: "classify_document text =
       \<lparr>predicted_type = (if 2 \<le> score (snd (?sc ! i)) then fst (?sc ! i) else ''unknown''),
        confidence = score_entry.confidence (snd (?sc ! i)),
        is_confident = (2 \<le> score (snd (?sc ! i))),
        all_scores = ?sc,
        matched_indicators = (matched_keywords (snd (?sc ! i)), matched_patterns (snd (?sc ! i)))\<rparr>"
    using classify_with_shape [OF document_patterns_nonempty, of "text"]
    unfolding classify_document_def by blast
  have i: "i < length document_patterns" using fm by (simp add: first_max_def score_all_eq)
  have fst_i: "fst (?sc ! i) = fst (document_patterns ! i)" using i by (simp add: score_all_eq)
  have full: "\<exists>i. first_max (\<lambda>e. score (snd e)) (all_scores (classify_document text)) i
      \<and> i < length document_patterns
      \<and> confidence (classify_document text)
          = score_entry.confidence (snd (all_scores (classify_document text) ! i))
      \<and> matched_indicators (classify_document text)
          = (matched_keywords (snd (all_scores (classify_document text) ! i)),
             matched_patterns (snd (all_scores (classify_document text) ! i)))
      \<and> predicted_type (classify_document text)
          = (if 2 \<le> score (snd (all_scores (classify_document text) ! i))
             then fst (document_patterns ! i) else ''unknown'')"
    unfolding r using fm i fst_i by (intro exI[of _ i]) simp
  have mini: "split_ws text \<noteq> [] \<longrightarrow>
        (\<exists>r i. minimal_classify_document text = Inr r
           \<and> map fst (m_scores r) = map fst minimal_document_patterns
           \<and> first_max snd (m_scores r) i
           \<and> m_predicted_type r = fst (minimal_document_patterns ! i))"
  proof
    assume w: "split_ws text \<noteq> []"
    obtain r i where "minimal_classify_with minimal_document_patterns text = Inr r"
      "m_scores r = count_all (lower text) minimal_document_patterns"
      "first_max snd (m_scores r) i" "m_predicted_type r = fst (minimal_document_patterns ! i)"
      using minimal_classify_with_shape [of minimal_document_patterns "text"] minimal_table_ok w
      by blast
    then have "minimal_classify_document text = Inr r
           \<and> map fst (m_scores r) = map fst minimal_document_patterns
           \<and> first_max snd (m_scores r) i
           \<and> m_predicted_type r = fst (minimal_document_patterns ! i)"
      by (simp add: minimal_classify_document_def count_all_eq comp_def)
    then show "\<exists>r i. minimal_classify_document text = Inr r
           \<and> map fst (m_scores r) = map fst minimal_document_patterns
           \<and> first_max snd (m_scores r) i
           \<and> m_predicted_type r = fst (minimal_document_patterns ! i)" by blast
  qed
  show ?thesis using full mini by blast
qed

theorem tie_break_earliest_declared_witness:
  "split_ws ''lease agreement loan agreement'' \<noteq> []
   \<and> (\<exists>r i. minimal_classify_document ''lease agreement loan agreement'' = Inr r
         \<and> first_max snd (m_scores r) i
         \<and> m_predicted_type r = fst (minimal_document_patterns ! i))
   \<and> (\<exists>i. first_max (\<lambda>e. score (snd e))
             (all_scores (classify_document ''lease agreement loan agreement'')) i
         \<and> predicted_type (classify_document ''lease agreement loan agreement'')
           = (if 2 \<le> score (snd (all_scores (classify_document ''lease agreement loan agreement'') ! i))
              then fst (document_patterns ! i) else ''unknown''))"
proof -
  have w: "split_ws ''lease agreement loan agreement'' \<noteq> []" by code_simp
  show ?thesis
    using tie_break_earliest_declared [of "''lease agreement loan agreement''"] w by blast
qed

section \<open>C9: a type's score and the selection are monotone\<close>

lemma first_max_unique:
  assumes "first_max key ys i" "first_max key ys j"
  shows "i = j"
proof (rule ccontr)
  assume "i \<noteq> j"
  then consider "i < j" | "j < i" by linarith
  then show False
  proof cases
    case 1
    then have "key (ys ! i) < key (ys ! j)" using assms(2) by (simp add: first_max_def)
    moreover have "key (ys ! j) \<le> key (ys ! i)" using assms by (simp add: first_max_def)
    ultimately show False by simp
  next
    case 2
    then have "key (ys ! j) < key (ys ! i)" using assms(1) by (simp add: first_max_def)
    moreover have "key (ys ! i) \<le> key (ys ! j)" using assms by (simp add: first_max_def)
    ultimately show False by simp
  qed
qed

lemma matches_bnd_free_all:
  "bnd_free r \<Longrightarrow>
     (\<forall>pw w rest pw2 rest2. matches ic r pw w rest \<longrightarrow> matches ic r pw2 w rest2)"
proof (induction r)
  case Eps
  then show ?case by simp
next
  case (Sym cs)
  then show ?case by simp
next
  case (Plus cs)
  then show ?case by simp
next
  case Bnd
  then show ?case by simp
next
  case (Cat a b)
  have fa: "bnd_free a" and fb: "bnd_free b" using Cat.prems by simp_all
  have ia: "\<And>pw w rest pw2 rest2. matches ic a pw w rest \<Longrightarrow> matches ic a pw2 w rest2"
    using Cat.IH(1) [OF fa] by blast
  have ib: "\<And>pw w rest pw2 rest2. matches ic b pw w rest \<Longrightarrow> matches ic b pw2 w rest2"
    using Cat.IH(2) [OF fb] by blast
  show ?case
  proof (intro allI impI)
    fix pw w rest pw2 rest2
    assume "matches ic (Cat a b) pw w rest"
    then obtain u v where uv: "w = u @ v" "matches ic a pw u (v @ rest)"
      "matches ic b (prev_word pw u) v rest" by auto
    have "w = u @ v \<and> matches ic a pw2 u (v @ rest2) \<and> matches ic b (prev_word pw2 u) v rest2"
      using uv(1) ia [OF uv(2)] ib [OF uv(3)] by simp
    then have "\<exists>u v. w = u @ v \<and> matches ic a pw2 u (v @ rest2) \<and> matches ic b (prev_word pw2 u) v rest2"
      by blast
    then show "matches ic (Cat a b) pw2 w rest2" by simp
  qed
next
  case (Alt a b)
  have fa: "bnd_free a" and fb: "bnd_free b" using Alt.prems by simp_all
  have ia: "\<And>pw w rest pw2 rest2. matches ic a pw w rest \<Longrightarrow> matches ic a pw2 w rest2"
    using Alt.IH(1) [OF fa] by blast
  have ib: "\<And>pw w rest pw2 rest2. matches ic b pw w rest \<Longrightarrow> matches ic b pw2 w rest2"
    using Alt.IH(2) [OF fb] by blast
  show ?case
  proof (intro allI impI)
    fix pw w rest pw2 rest2
    assume "matches ic (Alt a b) pw w rest"
    then consider "matches ic a pw w rest" | "matches ic b pw w rest" by auto
    then show "matches ic (Alt a b) pw2 w rest2"
    proof cases
      case 1
      then show ?thesis using ia [of pw w rest pw2 rest2] by simp
    next
      case 2
      then show ?thesis using ib [of pw w rest pw2 rest2] by simp
    qed
  qed
next
  case (Opt a)
  have fa: "bnd_free a" using Opt.prems by simp
  have ia: "\<And>pw w rest pw2 rest2. matches ic a pw w rest \<Longrightarrow> matches ic a pw2 w rest2"
    using Opt.IH [OF fa] by blast
  show ?case
  proof (intro allI impI)
    fix pw w rest pw2 rest2
    assume "matches ic (Opt a) pw w rest"
    then consider "matches ic a pw w rest" | "w = []" by auto
    then show "matches ic (Opt a) pw2 w rest2"
    proof cases
      case 1
      then show ?thesis using ia [of pw w rest pw2 rest2] by simp
    next
      case 2
      then show ?thesis by simp
    qed
  qed
next
  case (Grp a)
  then show ?case by simp
qed

lemma matches_bnd_free:
  "bnd_free r \<Longrightarrow> matches ic r pw w rest \<Longrightarrow> matches ic r pw2 w rest2"
  using matches_bnd_free_all by blast

lemma has_match_extend:
  assumes "bnd_free r" "has_match ic r s"
  shows "has_match ic r (a @ s @ b)"
proof -
  obtain pre w post where "s = pre @ w @ post" "matches ic r (prev_word False pre) w post"
    using assms(2) unfolding has_match_def by blast
  then have "a @ s @ b = (a @ pre) @ w @ (post @ b)
      \<and> matches ic r (prev_word False (a @ pre)) w (post @ b)"
    using matches_bnd_free [OF assms(1)] by simp
  then show ?thesis unfolding has_match_def by blast
qed

lemma occurs_ci_extend:
  assumes "occurs_ci k s"
  shows "occurs_ci k (a @ s @ b)"
proof -
  obtain pre mid post where "s = pre @ mid @ post" "lower mid = lower k"
    using assms unfolding occurs_ci_def by blast
  then have "a @ s @ b = (a @ pre) @ mid @ (post @ b) \<and> lower mid = lower k" by simp
  then show ?thesis unfolding occurs_ci_def by blast
qed

lemma filter_length_mono:
  "(\<And>x. x \<in> set xs \<Longrightarrow> P x \<Longrightarrow> Q x) \<Longrightarrow> length (filter P xs) \<le> length (filter Q xs)"
  by (induction xs) auto

lemma filter_length_strict:
  assumes "\<And>x. x \<in> set xs \<Longrightarrow> P x \<Longrightarrow> Q x" "k \<in> set xs" "\<not> P k" "Q k"
  shows "length (filter P xs) < length (filter Q xs)"
  using assms
proof (induction xs)
  case Nil
  then show ?case by simp
next
  case (Cons x xs)
  have mono: "length (filter P xs) \<le> length (filter Q xs)"
    using Cons.prems(1) by (intro filter_length_mono) auto
  show ?case
  proof (cases "k = x")
    case True
    then show ?thesis using Cons.prems mono by auto
  next
    case False
    then have "length (filter P xs) < length (filter Q xs)"
      using Cons.IH Cons.prems by auto
    then show ?thesis using Cons.prems(1) [of x] by auto
  qed
qed

lemma document_patterns_shape:
  "list_all (\<lambda>(t, ks, ps, w). w = 1 \<and> list_all bnd_free ps) document_patterns"
  by code_simp

lemma document_patterns_distinct: "distinct (map fst document_patterns)"
  by (simp add: document_patterns_def)

lemma classify_document_scores:
  "all_scores (classify_document text) = score_all (lower text) document_patterns"
  using classify_with_shape [OF document_patterns_nonempty, of "text"]
  unfolding classify_document_def by auto

lemma type_score_eq:
  assumes "j < length document_patterns"
  shows "type_score text j = contract_score text (snd (document_patterns ! j))"
  using assms
  by (simp add: type_score_def classify_document_scores score_all_eq score_rule_score)

lemma contract_score_mono:
  assumes "w = 1" "list_all bnd_free ps"
  shows "contract_score s (ks, ps, w) \<le> contract_score (a @ s @ b) (ks, ps, w)"
proof -
  have k: "length (filter (\<lambda>k. occurs_ci k s) ks) \<le> length (filter (\<lambda>k. occurs_ci k (a @ s @ b)) ks)"
    by (rule filter_length_mono) (rule occurs_ci_extend)
  have "\<And>p. p \<in> set ps \<Longrightarrow> has_match False p (lower s) \<Longrightarrow> has_match False p (lower (a @ s @ b))"
    using assms(2) has_match_extend [of _ False "lower s" "lower a" "lower b"]
    by (auto simp: lower_def list_all_iff)
  then have p: "length (filter (\<lambda>p. has_match False p (lower s)) ps)
      \<le> length (filter (\<lambda>p. has_match False p (lower (a @ s @ b))) ps)"
    by (rule filter_length_mono)
  show ?thesis using k p assms(1) by (simp add: contract_score_def)
qed

lemma contract_score_strict:
  assumes "w = 1" "list_all bnd_free ps" "k \<in> set ks" "\<not> occurs_ci k s" "occurs_ci k (a @ s @ b)"
  shows "contract_score s (ks, ps, w) + 1 \<le> contract_score (a @ s @ b) (ks, ps, w)"
proof -
  have k: "length (filter (\<lambda>k. occurs_ci k s) ks) < length (filter (\<lambda>k. occurs_ci k (a @ s @ b)) ks)"
    using assms(3,4,5) by (intro filter_length_strict [where k = k]) (auto intro: occurs_ci_extend)
  have "\<And>p. p \<in> set ps \<Longrightarrow> has_match False p (lower s) \<Longrightarrow> has_match False p (lower (a @ s @ b))"
    using assms(2) has_match_extend [of _ False "lower s" "lower a" "lower b"]
    by (auto simp: lower_def list_all_iff)
  then have p: "length (filter (\<lambda>p. has_match False p (lower s)) ps)
      \<le> length (filter (\<lambda>p. has_match False p (lower (a @ s @ b))) ps)"
    by (rule filter_length_mono)
  show ?thesis using k p assms(1) by (simp add: contract_score_def)
qed

lemma selection_monotone:
  assumes fm: "first_max key sc i" and fm2: "first_max key sc2 i2"
    and len: "length sc2 = length sc"
    and same: "\<And>j. j < length sc \<Longrightarrow> j \<noteq> t \<Longrightarrow> key (sc2 ! j) = key (sc ! j)"
    and up: "key (sc ! t) \<le> key (sc2 ! t)"
  shows "i2 = t \<or> i2 = i"
proof (cases "i2 = t")
  case True
  then show ?thesis by simp
next
  case False
  have i2: "i2 < length sc" using fm2 len by (simp add: first_max_def)
  have le2: "\<And>j. j < length sc \<Longrightarrow> key (sc2 ! j) \<le> key (sc2 ! i2)"
    and lt2: "\<And>j. j < i2 \<Longrightarrow> key (sc2 ! j) < key (sc2 ! i2)"
    using fm2 len by (simp_all add: first_max_def)
  have eq: "key (sc2 ! i2) = key (sc ! i2)" using same [OF i2 False] .
  have below: "\<And>j. j < length sc \<Longrightarrow> key (sc ! j) \<le> key (sc2 ! j)"
  proof -
    fix j assume j: "j < length sc"
    show "key (sc ! j) \<le> key (sc2 ! j)"
    proof (cases "j = t")
      case True
      then show ?thesis using up by simp
    next
      case False
      then show ?thesis using same [OF j] by simp
    qed
  qed
  have "first_max key sc i2"
    unfolding first_max_def
  proof (intro conjI allI impI)
    show "i2 < length sc" by (rule i2)
  next
    fix j assume j: "j < length sc"
    have "key (sc ! j) \<le> key (sc2 ! j)" by (rule below [OF j])
    also have "\<dots> \<le> key (sc2 ! i2)" by (rule le2 [OF j])
    finally show "key (sc ! j) \<le> key (sc ! i2)" using eq by simp
  next
    fix j assume j: "j < i2"
    then have jl: "j < length sc" using i2 by simp
    have "key (sc ! j) \<le> key (sc2 ! j)" by (rule below [OF jl])
    also have "\<dots> < key (sc2 ! i2)" by (rule lt2 [OF j])
    finally show "key (sc ! j) < key (sc ! i2)" using eq by simp
  qed
  then have "i2 = i" using fm first_max_unique by blast
  then show ?thesis by simp
qed

lemma classify_document_predicted:
  "\<exists>i. first_max (\<lambda>e. score (snd e)) (all_scores (classify_document text)) i
     \<and> i < length document_patterns
     \<and> predicted_type (classify_document text)
        = (if 2 \<le> type_score text i then fst (document_patterns ! i) else ''unknown'')"
proof -
  let ?sc = "score_all (lower text) document_patterns"
  obtain i where fm: "first_max (\<lambda>e. score (snd e)) ?sc i"
    and r: "classify_document text =
       \<lparr>predicted_type = (if 2 \<le> score (snd (?sc ! i)) then fst (?sc ! i) else ''unknown''),
        confidence = score_entry.confidence (snd (?sc ! i)),
        is_confident = (2 \<le> score (snd (?sc ! i))),
        all_scores = ?sc,
        matched_indicators = (matched_keywords (snd (?sc ! i)), matched_patterns (snd (?sc ! i)))\<rparr>"
    using classify_with_shape [OF document_patterns_nonempty, of "text"]
    unfolding classify_document_def by blast
  have i: "i < length document_patterns" using fm by (simp add: first_max_def score_all_eq)
  have fst_i: "fst (?sc ! i) = fst (document_patterns ! i)" using i by (simp add: score_all_eq)
  show ?thesis
    unfolding type_score_def r using fm i fst_i by (intro exI[of _ i]) simp
qed

lemma predicted_type_monotone:
  assumes t: "t < length document_patterns"
    and same: "\<And>j. j < length document_patterns \<Longrightarrow> j \<noteq> t \<Longrightarrow> type_score text2 j = type_score text j"
    and up: "type_score text t \<le> type_score text2 t"
  shows "predicted_type (classify_document text2) = predicted_type (classify_document text)
       \<or> predicted_type (classify_document text2) = fst (document_patterns ! t)"
proof -
  let ?key = "\<lambda>e::string \<times> score_entry. score (snd e)"
  obtain i where i: "first_max ?key (all_scores (classify_document text)) i"
    "i < length document_patterns"
    "predicted_type (classify_document text)
        = (if 2 \<le> type_score text i then fst (document_patterns ! i) else ''unknown'')"
    using classify_document_predicted [of "text"] by blast
  obtain i2 where i2: "first_max ?key (all_scores (classify_document text2)) i2"
    "i2 < length document_patterns"
    "predicted_type (classify_document text2)
        = (if 2 \<le> type_score text2 i2 then fst (document_patterns ! i2) else ''unknown'')"
    using classify_document_predicted [of text2] by blast
  have len: "length (all_scores (classify_document text)) = length document_patterns"
    "length (all_scores (classify_document text2)) = length document_patterns"
    by (simp_all add: classify_document_scores score_all_eq)
  have "i2 = t \<or> i2 = i"
  proof (rule selection_monotone [OF i(1) i2(1)])
    show "length (all_scores (classify_document text2)) = length (all_scores (classify_document text))"
      using len by simp
  next
    fix j assume "j < length (all_scores (classify_document text))" "j \<noteq> t"
    then show "?key (all_scores (classify_document text2) ! j) = ?key (all_scores (classify_document text) ! j)"
      using same [of j] len by (simp add: type_score_def)
  next
    show "?key (all_scores (classify_document text) ! t) \<le> ?key (all_scores (classify_document text2) ! t)"
      using up by (simp add: type_score_def)
  qed
  then consider "i2 = t" "2 \<le> type_score text2 t" | "i2 = t" "type_score text2 t < 2"
    | "i2 = i" "i \<noteq> t" by fastforce
  then show ?thesis
  proof cases
    case 1
    then show ?thesis using i2(3) by simp
  next
    case 2
    have "type_score text2 i \<le> type_score text2 t"
      using i2(1) 2(1) i(2) len by (simp add: first_max_def type_score_def)
    moreover have "type_score text i \<le> type_score text2 i"
      using same [OF i(2)] up by (cases "i = t") auto
    ultimately have "type_score text i < 2" using 2(2) by simp
    then show ?thesis using i(3) i2(3) 2 by simp
  next
    case 3
    then have "type_score text2 i = type_score text i" using same [OF i(2)] by simp
    then show ?thesis using i(3) i2(3) 3(1) by simp
  qed
qed

text \<open>
  Claim C9, as stated, fails twice on the full classifier. A keyword counts once, so a
  second occurrence of \<^verbatim>\<open>lease\<close> leaves the score of \<^verbatim>\<open>lease_agreement\<close> at 1. And
  \<^verbatim>\<open>termination\<close>, a keyword of \<^verbatim>\<open>employment_contract\<close> alone, appended after
  \<^verbatim>\<open>lease\<close> completes the keyword \<^verbatim>\<open>lease term\<close> of another type: the predicted type
  moves from \<^verbatim>\<open>nda\<close> to \<^verbatim>\<open>lease_agreement\<close>.
\<close>

theorem keyword_monotonicity_counterexample:
  "''lease'' \<in> set (fst (snd (document_patterns ! 3)))
   \<and> type_score ''a lease'' 3 = 1
   \<and> type_score (''a lease'' @ '' lease'') 3 = 1
   \<and> ''termination'' \<in> set (fst (snd (document_patterns ! 1)))
   \<and> count_list (concat (map (fst \<circ> snd) document_patterns)) ''termination'' = 1
   \<and> fst (document_patterns ! 1) = ''employment_contract''
   \<and> predicted_type (classify_document ''confidentiality rent tenant lease'') = ''nda''
   \<and> predicted_type (classify_document (''confidentiality rent tenant lease'' @ '' termination''))
       = ''lease_agreement''"
  by code_simp

text \<open>
  Claim C9, amended. For a registered type \<open>t\<close> and one of its keywords \<open>k\<close>: adding
  text before or after a document lowers the score of no type; it raises the score of
  \<open>t\<close> strictly when \<open>k\<close> did not occur in the document and occurs in the extended one;
  and whenever a second text gives every other type the same score and \<open>t\<close> at least
  the same score, its predicted type is the predicted type of the first text or \<open>t\<close>.
\<close>

theorem keyword_monotonicity:
  "t < length document_patterns \<Longrightarrow> k \<in> set (fst (snd (document_patterns ! t))) \<Longrightarrow>
     (\<forall>j < length document_patterns. type_score text j \<le> type_score (a @ text @ b) j)
   \<and> (\<not> occurs_ci k text \<and> occurs_ci k (a @ text @ b) \<longrightarrow>
        type_score text t < type_score (a @ text @ b) t)
   \<and> (\<forall>text2.
        (\<forall>j < length document_patterns. j \<noteq> t \<longrightarrow> type_score text2 j = type_score text j)
        \<and> type_score text t \<le> type_score text2 t \<longrightarrow>
          predicted_type (classify_document text2) = predicted_type (classify_document text)
        \<or> predicted_type (classify_document text2) = fst (document_patterns ! t))"
proof -
  assume t: "t < length document_patterns"
    and k: "k \<in> set (fst (snd (document_patterns ! t)))"
  have shape: "\<And>j. j < length document_patterns \<Longrightarrow>
      \<exists>ks ps w. snd (document_patterns ! j) = (ks, ps, w) \<and> w = 1 \<and> list_all bnd_free ps"
  proof -
    fix j assume j: "j < length document_patterns"
    obtain ty ks ps w where e: "document_patterns ! j = (ty, ks, ps, w)"
      by (metis prod_cases4)
    have "document_patterns ! j \<in> set document_patterns" using j by simp
    then have "w = 1 \<and> list_all bnd_free ps"
      using document_patterns_shape e by (auto simp: list_all_iff)
    then show "\<exists>ks ps w. snd (document_patterns ! j) = (ks, ps, w) \<and> w = 1 \<and> list_all bnd_free ps"
      using e by simp
  qed
  have mono: "\<forall>j < length document_patterns. type_score text j \<le> type_score (a @ text @ b) j"
  proof (intro allI impI)
    fix j assume j: "j < length document_patterns"
    obtain ks ps w where "snd (document_patterns ! j) = (ks, ps, w)" "w = 1" "list_all bnd_free ps"
      using shape [OF j] by blast
    then show "type_score text j \<le> type_score (a @ text @ b) j"
      using contract_score_mono [of w ps "text" ks a b] by (simp add: type_score_eq [OF j])
  qed
  have strict: "\<not> occurs_ci k text \<and> occurs_ci k (a @ text @ b) \<longrightarrow>
        type_score text t < type_score (a @ text @ b) t"
  proof
    assume o: "\<not> occurs_ci k text \<and> occurs_ci k (a @ text @ b)"
    obtain ks ps w where e: "snd (document_patterns ! t) = (ks, ps, w)" "w = 1" "list_all bnd_free ps"
      using shape [OF t] by blast
    have "k \<in> set ks" using k e(1) by simp
    then have "contract_score text (ks, ps, w) + 1 \<le> contract_score (a @ text @ b) (ks, ps, w)"
      using contract_score_strict [of w ps k ks "text" a b] e o by simp
    then show "type_score text t < type_score (a @ text @ b) t"
      using e(1) by (simp add: type_score_eq [OF t])
  qed
  have sel: "\<forall>text2.
        (\<forall>j < length document_patterns. j \<noteq> t \<longrightarrow> type_score text2 j = type_score text j)
        \<and> type_score text t \<le> type_score text2 t \<longrightarrow>
          predicted_type (classify_document text2) = predicted_type (classify_document text)
        \<or> predicted_type (classify_document text2) = fst (document_patterns ! t)"
    using predicted_type_monotone [OF t] by blast
  show ?thesis using mono strict sel by blast
qed

theorem keyword_monotonicity_witness:
  "(3::nat) < length document_patterns
   \<and> ''lease'' \<in> set (fst (snd (document_patterns ! 3)))
   \<and> \<not> occurs_ci ''lease'' ''loan agreement''
   \<and> occurs_ci ''lease'' (''loan agreement'' @ '' lease agreement rent'')
   \<and> type_score ''loan agreement'' 3 < type_score (''loan agreement'' @ '' lease agreement rent'') 3
   \<and> (predicted_type (classify_document (''loan agreement'' @ '' lease agreement rent''))
         = predicted_type (classify_document ''loan agreement'')
      \<or> predicted_type (classify_document (''loan agreement'' @ '' lease agreement rent''))
         = fst (document_patterns ! 3))"
proof -
  have len: "length document_patterns = 8" by (simp add: document_patterns_def)
  have k: "''lease'' \<in> set (fst (snd (document_patterns ! 3)))" by code_simp
  have "\<not> py_in (lower ''lease'') (lower ''loan agreement'')" by code_simp
  then have o1: "\<not> occurs_ci ''lease'' ''loan agreement''" using py_in_lower_iff by blast
  have "py_in (lower ''lease'') (lower (''loan agreement'' @ '' lease agreement rent''))" by code_simp
  then have o2: "occurs_ci ''lease'' (''loan agreement'' @ '' lease agreement rent'')"
    using py_in_lower_iff by blast
  have s1: "map (score \<circ> snd) (all_scores (classify_document ''loan agreement''))
      = [0, 0, 0, 0, 0, 0, 0, 3]"
    by code_simp
  have s2: "map (score \<circ> snd) (all_scores (classify_document (''loan agreement'' @ '' lease agreement rent'')))
      = [0, 0, 0, 4, 0, 0, 0, 3]"
    by code_simp
  have ts: "\<And>text j. j < 8 \<Longrightarrow>
      type_score text j = map (score \<circ> snd) (all_scores (classify_document text)) ! j"
    using len by (simp add: type_score_def classify_document_scores score_all_eq)
  have same: "\<forall>j < length document_patterns. j \<noteq> 3 \<longrightarrow>
      type_score (''loan agreement'' @ '' lease agreement rent'') j = type_score ''loan agreement'' j"
  proof (intro allI impI)
    fix j :: nat assume "j < length document_patterns" "j \<noteq> 3"
    then consider "j = 0" | "j = 1" | "j = 2" | "j = 4" | "j = 5" | "j = 6" | "j = 7"
      unfolding len by linarith
    then show "type_score (''loan agreement'' @ '' lease agreement rent'') j = type_score ''loan agreement'' j"
      by cases (simp_all only: ts s1 s2, simp_all)
  qed
  have up: "type_score ''loan agreement'' 3 \<le> type_score (''loan agreement'' @ '' lease agreement rent'') 3"
    by (simp only: ts s1 s2, simp)
  have t: "(3::nat) < length document_patterns" using len by simp
  note inst = keyword_monotonicity [OF t k, of "''loan agreement''" "[]" "'' lease agreement rent''",
      unfolded append_Nil]
  have strict: "type_score ''loan agreement'' 3 < type_score (''loan agreement'' @ '' lease agreement rent'') 3"
    using inst o1 o2 by blast
  have sel: "predicted_type (classify_document (''loan agreement'' @ '' lease agreement rent''))
         = predicted_type (classify_document ''loan agreement'')
      \<or> predicted_type (classify_document (''loan agreement'' @ '' lease agreement rent''))
         = fst (document_patterns ! 3)"
    using inst same up by blast
  show ?thesis using t k o1 o2 strict sel by blast
qed

section \<open>C10: the chunk splitter terminates and covers the text\<close>

lemma py_index_nat: "py_index n (int k) = min k n"
  by (simp add: py_index_def)

lemma py_slice_nat:
  assumes "s \<le> length text"
  shows "py_slice text (int s) (int e) = take (e - s) (drop s text)"
proof -
  have "py_slice text (int s) (int e) = take (min e (length text) - s) (drop s text)"
    using assms by (simp add: py_slice_def py_index_nat Let_def min_absorb1)
  also have "\<dots> = take (e - s) (drop s text)"
    by (cases "e \<le> length text") (simp_all add: min_def)
  finally show ?thesis .
qed

lemma py_rfind_range:
  "py_rfind s c i j = - 1
   \<or> (int (py_index (length s) i) \<le> py_rfind s c i j
      \<and> py_rfind s c i j < int (py_index (length s) j))"
proof (cases "filter (\<lambda>p. s ! p = c) (rev [py_index (length s) i..<py_index (length s) j])")
  case Nil
  then show ?thesis by (simp add: py_rfind_def Let_def)
next
  case (Cons p ps)
  then have "p \<in> set (filter (\<lambda>p. s ! p = c) (rev [py_index (length s) i..<py_index (length s) j]))"
    by simp
  then have "py_index (length s) i \<le> p \<and> p < py_index (length s) j" by auto
  then show ?thesis using Cons by (simp add: py_rfind_def Let_def)
qed

lemma py_index_int: "0 \<le> i \<Longrightarrow> i \<le> int n \<Longrightarrow> int (py_index n i) = i"
  unfolding py_index_def min_def by (simp, linarith)

lemma chunk_step:
  assumes lt: "start < length text"
  shows "\<exists>e1 start2.
      chunk_loop text 5000 500 (int start) acc
        = chunk_loop text 5000 500 (int start2) (acc @ [take (e1 - start) (drop start text)])
    \<and> start < e1
    \<and> ((length text \<le> e1 \<and> start2 = e1)
       \<or> (e1 < length text \<and> start2 + 500 = e1 \<and> start + 4301 \<le> start2))"
proof -
  define L where "L = int (length text)"
  define E0 where "E0 = int start + 5000"
  define r where "r = py_rfind text (CHR ''.'') (E0 - 200) E0"
  define E1 where "E1 = (if E0 < L then (if r \<noteq> - 1 then r + 1 else E0) else E0)"
  have eq: "chunk_loop text 5000 500 (int start) acc
      = chunk_loop text 5000 500 (if E1 < L then E1 - 500 else E1)
          (acc @ [py_slice text (int start) E1])"
    using lt unfolding E1_def r_def E0_def L_def
    by (subst chunk_loop.simps) (simp add: Let_def)
  have rr: "r = - 1 \<or> (E0 - 200 \<le> r \<and> r < E0)" if "E0 < L"
  proof -
    have "int (py_index (length text) (E0 - 200)) = E0 - 200"
      using that by (intro py_index_int) (simp_all add: E0_def L_def)
    moreover have "int (py_index (length text) E0) = E0"
      using that by (intro py_index_int) (simp_all add: E0_def L_def)
    ultimately show ?thesis
      using py_rfind_range [of "text" "CHR ''.''" "E0 - 200" E0] unfolding r_def by simp
  qed
  have b1: "int start + 4801 \<le> E1 \<and> E1 \<le> E0"
    using rr unfolding E1_def by (auto simp: E0_def)
  have b2: "E1 = E0" if "\<not> E0 < L" using that by (simp add: E1_def)
  define e1 where "e1 = nat E1"
  have e1: "E1 = int e1" using b1 by (simp add: e1_def)
  have e1_lo: "start + 4801 \<le> e1" using b1 unfolding e1 by linarith
  have sl: "py_slice text (int start) E1 = take (e1 - start) (drop start text)"
    unfolding e1 using lt by (intro py_slice_nat) simp
  show ?thesis
  proof (cases "E1 < L")
    case True
    define start2 where "start2 = e1 - 500"
    have s2: "E1 - 500 = int start2" using e1_lo unfolding e1 start2_def by linarith
    have "chunk_loop text 5000 500 (int start) acc
        = chunk_loop text 5000 500 (int start2) (acc @ [take (e1 - start) (drop start text)])"
      using eq True sl s2 by simp
    moreover have "e1 < length text" using True unfolding e1 L_def by simp
    moreover have "start2 + 500 = e1 \<and> start + 4301 \<le> start2"
      using e1_lo unfolding start2_def by linarith
    moreover have "start < e1" using e1_lo by linarith
    ultimately show ?thesis by blast
  next
    case False
    have "chunk_loop text 5000 500 (int start) acc
        = chunk_loop text 5000 500 (int e1) (acc @ [take (e1 - start) (drop start text)])"
      using eq False sl e1 by simp
    moreover have "length text \<le> e1" using False unfolding e1 L_def by simp
    moreover have "start < e1" using e1_lo by linarith
    ultimately show ?thesis by blast
  qed
qed

lemma chunk_loop_covers:
  "\<exists>spans. chunk_loop text 5000 500 (int start) acc
             = Some (acc @ map (\<lambda>(s, e). take (e - s) (drop s text)) spans)
     \<and> covers_from 4301 (length text) start spans"
proof (induction "length text - start" arbitrary: start acc rule: less_induct)
  case less
  show ?case
  proof (cases "start < length text")
    case False
    then have "chunk_loop text 5000 500 (int start) acc = Some acc"
      by (subst chunk_loop.simps) simp
    then show ?thesis using False by (intro exI[of _ "[]"]) simp
  next
    case True
    obtain e1 start2 where st:
      "chunk_loop text 5000 500 (int start) acc
        = chunk_loop text 5000 500 (int start2) (acc @ [take (e1 - start) (drop start text)])"
      "start < e1"
      "(length text \<le> e1 \<and> start2 = e1)
       \<or> (e1 < length text \<and> start2 + 500 = e1 \<and> start + 4301 \<le> start2)"
      using chunk_step [OF True, of acc] by blast
    from st(3) show ?thesis
    proof
      assume a: "length text \<le> e1 \<and> start2 = e1"
      then have "chunk_loop text 5000 500 (int start2) (acc @ [take (e1 - start) (drop start text)])
          = Some (acc @ [take (e1 - start) (drop start text)])"
        by (subst chunk_loop.simps) simp
      then show ?thesis using st(1,2) True a by (intro exI[of _ "[(start, e1)]"]) simp
    next
      assume a: "e1 < length text \<and> start2 + 500 = e1 \<and> start + 4301 \<le> start2"
      then have "length text - start2 < length text - start" using True by linarith
      from less [OF this, of "acc @ [take (e1 - start) (drop start text)]"]
      obtain spans where sp:
        "chunk_loop text 5000 500 (int start2) (acc @ [take (e1 - start) (drop start text)])
          = Some ((acc @ [take (e1 - start) (drop start text)])
                   @ map (\<lambda>(s, e). take (e - s) (drop s text)) spans)"
        "covers_from 4301 (length text) start2 spans" by blast
      have "start2 < length text" using a by simp
      then obtain s2 e2 rest where r: "spans = (s2, e2) # rest"
        using sp(2) by (cases spans) auto
      then have s2: "s2 = start2" using sp(2) by simp
      have "covers_from 4301 (length text) start ((start, e1) # spans)"
        using True st(2) a sp(2) r s2 by simp
      moreover have "chunk_loop text 5000 500 (int start) acc
          = Some (acc @ map (\<lambda>(s, e). take (e - s) (drop s text)) ((start, e1) # spans))"
        using st(1) sp(1) by simp
      ultimately show ?thesis by blast
    qed
  qed
qed

lemma covers_from_position:
  "covers_from adv n start spans \<Longrightarrow> start \<le> p \<Longrightarrow> p < n \<Longrightarrow>
     \<exists>se \<in> set spans. fst se \<le> p \<and> p < snd se"
proof (induction spans arbitrary: start)
  case Nil
  then show ?case by simp
next
  case (Cons se spans)
  obtain s e where se: "se = (s, e)" by (cases se) auto
  show ?case
  proof (cases "p < e")
    case True
    then show ?thesis using Cons.prems se by auto
  next
    case False
    then obtain s2 e2 rest where r: "spans = (s2, e2) # rest"
      using Cons.prems se by (cases spans) auto
    then have "covers_from adv n s2 spans" "s2 \<le> e"
      using Cons.prems(1) se by auto
    moreover have "s2 \<le> p" using False \<open>s2 \<le> e\<close> by simp
    ultimately have "\<exists>se \<in> set spans. fst se \<le> p \<and> p < snd se"
      using Cons.IH Cons.prems(3) by blast
    then show ?thesis by auto
  qed
qed

text \<open>
  Claim C10. With the caller's arguments (chunks of 5000 characters, overlap 500)
  \<^verbatim>\<open>_chunk_text\<close> returns for every text. Its chunks are the parts of the text between
  the positions of a list of spans: the first span begins at 0, each further span begins
  at least 4301 characters after the one before (a cut lies in the last 200 characters of
  the window of 5000, the overlap is 500) and not after its end, and the last span reaches
  the end of the text. So every position of the text lies in a chunk, and every chunk is
  a contiguous part of the text.
\<close>

theorem chunk_text_terminates_and_covers:
  "\<exists>spans. chunk_text text 5000 500 = Some (map (\<lambda>(s, e). take (e - s) (drop s text)) spans)
     \<and> covers_from 4301 (length text) 0 spans
     \<and> (\<forall>p < length text. \<exists>se \<in> set spans. fst se \<le> p \<and> p < snd se)
     \<and> (\<forall>se \<in> set spans. \<exists>pre post.
           text = pre @ take (snd se - fst se) (drop (fst se) text) @ post)"
proof -
  obtain spans where sp:
    "chunk_loop text 5000 500 (int 0) [] = Some ([] @ map (\<lambda>(s, e). take (e - s) (drop s text)) spans)"
    "covers_from 4301 (length text) 0 spans"
    using chunk_loop_covers [of "text" 0 "[]"] by blast
  have 1: "chunk_text text 5000 500 = Some (map (\<lambda>(s, e). take (e - s) (drop s text)) spans)"
    using sp(1) by (simp add: chunk_text_def)
  have 2: "\<forall>p < length text. \<exists>se \<in> set spans. fst se \<le> p \<and> p < snd se"
    using covers_from_position [OF sp(2)] by simp
  have 3: "\<forall>se \<in> set spans. \<exists>pre post.
           text = pre @ take (snd se - fst se) (drop (fst se) text) @ post"
  proof
    fix se assume "se \<in> set spans"
    have "text = take (fst se) text @ take (snd se - fst se) (drop (fst se) text)
        @ drop (snd se - fst se) (drop (fst se) text)"
      by (metis append_take_drop_id)
    then show "\<exists>pre post. text = pre @ take (snd se - fst se) (drop (fst se) text) @ post"
      by blast
  qed
  show ?thesis using 1 sp(2) 2 3 by blast
qed

theorem chunk_text_terminates_and_covers_witness:
  "(11999::nat) < length (replicate 12000 (CHR ''a''))
   \<and> (\<exists>spans. chunk_text (replicate 12000 (CHR ''a'')) 5000 500
          = Some (map (\<lambda>(s, e). take (e - s) (drop s (replicate 12000 (CHR ''a'')))) spans)
        \<and> (\<exists>se \<in> set spans. fst se \<le> 11999 \<and> 11999 < snd se))"
proof -
  have h: "(11999::nat) < length (replicate 12000 (CHR ''a''))" by simp
  show ?thesis
    using h chunk_text_terminates_and_covers [of "replicate 12000 (CHR ''a'')"] by blast
qed

lemma chunk_text_small_example:
  "chunk_text ''One. Two.'' 5000 500 = Some [''One. Two.'']"
  by code_simp

section \<open>Keeping the first element of each key\<close>

text \<open>The loops that remove duplicates (of clauses, of entities) all have the shape of
  \<open>keep_first\<close>: an element is appended unless an element kept before has its key.\<close>

lemma keep_first_props:
  "\<exists>ks. keep_first key u cs = u @ ks \<and> subseq ks cs
     \<and> (distinct (map key u)
          \<longrightarrow> distinct (map key (u @ ks)))
     \<and> (\<forall>c \<in> set ks. key c \<notin> key ` set u
          \<and> (\<exists>i < length cs. cs ! i = c
               \<and> (\<forall>j < i. key (cs ! j) \<noteq> key c)))"
proof (induction cs arbitrary: u)
  case Nil
  then show ?case by simp
next
  case (Cons c cs)
  let ?key = key
  show ?case
  proof (cases "?key c \<in> ?key ` set u")
    case True
    obtain ks where ks: "keep_first key u cs = u @ ks" "subseq ks cs"
      "distinct (map ?key u) \<longrightarrow> distinct (map ?key (u @ ks))"
      "\<forall>d \<in> set ks. ?key d \<notin> ?key ` set u
          \<and> (\<exists>i < length cs. cs ! i = d \<and> (\<forall>j < i. ?key (cs ! j) \<noteq> ?key d))"
      using Cons.IH [of u] by blast
    have 1: "keep_first key u (c # cs) = u @ ks" using True ks(1) by simp
    have 2: "subseq ks (c # cs)" using ks(2) by (simp add: list_emb_Cons)
    have 4: "\<forall>d \<in> set ks. ?key d \<notin> ?key ` set u
          \<and> (\<exists>i < length (c # cs). (c # cs) ! i = d \<and> (\<forall>j < i. ?key ((c # cs) ! j) \<noteq> ?key d))"
    proof
      fix d assume d: "d \<in> set ks"
      then obtain i where i: "?key d \<notin> ?key ` set u" "i < length cs" "cs ! i = d"
        "\<forall>j < i. ?key (cs ! j) \<noteq> ?key d" using ks(4) by blast
      have "\<forall>j < Suc i. ?key ((c # cs) ! j) \<noteq> ?key d"
      proof (intro allI impI)
        fix j assume j: "j < Suc i"
        show "?key ((c # cs) ! j) \<noteq> ?key d"
        proof (cases j)
          case 0
          then show ?thesis using True i(1) by auto
        next
          case (Suc j')
          then show ?thesis using i(4) j by simp
        qed
      qed
      then have "Suc i < length (c # cs) \<and> (c # cs) ! Suc i = d
          \<and> (\<forall>j < Suc i. ?key ((c # cs) ! j) \<noteq> ?key d)"
        using i by simp
      then have "\<exists>i < length (c # cs). (c # cs) ! i = d \<and> (\<forall>j < i. ?key ((c # cs) ! j) \<noteq> ?key d)"
        by (rule exI [of _ "Suc i"])
      then show "?key d \<notin> ?key ` set u
          \<and> (\<exists>i < length (c # cs). (c # cs) ! i = d \<and> (\<forall>j < i. ?key ((c # cs) ! j) \<noteq> ?key d))"
        using i(1) by (intro conjI)
    qed
    show ?thesis using 1 2 ks(3) 4 by blast
  next
    case False
    obtain ks where ks: "keep_first key (u @ [c]) cs = (u @ [c]) @ ks" "subseq ks cs"
      "distinct (map ?key (u @ [c])) \<longrightarrow> distinct (map ?key ((u @ [c]) @ ks))"
      "\<forall>d \<in> set ks. ?key d \<notin> ?key ` set (u @ [c])
          \<and> (\<exists>i < length cs. cs ! i = d \<and> (\<forall>j < i. ?key (cs ! j) \<noteq> ?key d))"
      using Cons.IH [of "u @ [c]"] by blast
    have 1: "keep_first key u (c # cs) = u @ (c # ks)" using False ks(1) by simp
    have 2: "subseq (c # ks) (c # cs)" using ks(2) by simp
    have 3: "distinct (map ?key u) \<longrightarrow> distinct (map ?key (u @ (c # ks)))"
      using ks(3) False by auto
    have 4: "\<forall>d \<in> set (c # ks). ?key d \<notin> ?key ` set u
          \<and> (\<exists>i < length (c # cs). (c # cs) ! i = d \<and> (\<forall>j < i. ?key ((c # cs) ! j) \<noteq> ?key d))"
    proof
      fix d assume d: "d \<in> set (c # ks)"
      show "?key d \<notin> ?key ` set u
          \<and> (\<exists>i < length (c # cs). (c # cs) ! i = d \<and> (\<forall>j < i. ?key ((c # cs) ! j) \<noteq> ?key d))"
      proof (cases "d = c")
        case True
        have "0 < length (c # cs) \<and> (c # cs) ! 0 = d \<and> (\<forall>j < 0. ?key ((c # cs) ! j) \<noteq> ?key d)"
          using True by simp
        then have "\<exists>i < length (c # cs). (c # cs) ! i = d \<and> (\<forall>j < i. ?key ((c # cs) ! j) \<noteq> ?key d)"
          by (rule exI [of _ 0])
        moreover have "?key d \<notin> ?key ` set u" using True False by simp
        ultimately show ?thesis by (rule conjI [rotated])
      next
        case dc: False
        then have "d \<in> set ks" using d by simp
        then obtain i where i: "?key d \<notin> ?key ` set (u @ [c])" "i < length cs" "cs ! i = d"
          "\<forall>j < i. ?key (cs ! j) \<noteq> ?key d" using ks(4) by blast
        have "\<forall>j < Suc i. ?key ((c # cs) ! j) \<noteq> ?key d"
        proof (intro allI impI)
          fix j assume j: "j < Suc i"
          show "?key ((c # cs) ! j) \<noteq> ?key d"
          proof (cases j)
            case 0
            then show ?thesis using i(1) by auto
          next
            case (Suc j')
            then show ?thesis using i(4) j by simp
          qed
        qed
        then have "Suc i < length (c # cs) \<and> (c # cs) ! Suc i = d
            \<and> (\<forall>j < Suc i. ?key ((c # cs) ! j) \<noteq> ?key d)"
          using i by simp
        then have "\<exists>i < length (c # cs). (c # cs) ! i = d \<and> (\<forall>j < i. ?key ((c # cs) ! j) \<noteq> ?key d)"
          by (rule exI [of _ "Suc i"])
        moreover have "?key d \<notin> ?key ` set u" using i(1) by auto
        ultimately show ?thesis by (rule conjI [rotated])
      qed
    qed
    show ?thesis using 1 2 3 4 by blast
  qed
qed

lemma keep_first_filter:
  "keep_first key u cs
     = u @ map (nth cs) (filter (\<lambda>i. key (cs ! i) \<notin> key ` set u
                                     \<and> (\<forall>j < i. key (cs ! j) \<noteq> key (cs ! i)))
                           [0 ..< length cs])"
proof (induction cs arbitrary: u)
  case Nil
  then show ?case by simp
next
  case (Cons c cs)
  have upt: "[0 ..< length (c # cs)] = 0 # map Suc [0 ..< length cs]"
    by (simp add: upt_conv_Cons map_Suc_upt del: upt_Suc)
  show ?case
  proof (cases "key c \<in> key ` set u")
    case True
    have eq: "\<And>i. (key (cs ! i) \<notin> key ` set u
                 \<and> (\<forall>j < Suc i. key ((c # cs) ! j) \<noteq> key (cs ! i)))
            = (key (cs ! i) \<notin> key ` set u \<and> (\<forall>j < i. key (cs ! j) \<noteq> key (cs ! i)))"
      using True by (auto simp: All_less_Suc2)
    show ?thesis
      unfolding upt using True Cons.IH [of u]
      by (simp add: filter_map comp_def eq del: upt_Suc)
  next
    case False
    have eq: "\<And>i. (key (cs ! i) \<notin> key ` set u
                 \<and> (\<forall>j < Suc i. key ((c # cs) ! j) \<noteq> key (cs ! i)))
            = (key (cs ! i) \<notin> key ` set (u @ [c]) \<and> (\<forall>j < i. key (cs ! j) \<noteq> key (cs ! i)))"
      by (auto simp: All_less_Suc2)
    show ?thesis
      unfolding upt using False Cons.IH [of "u @ [c]"]
      by (simp add: filter_map comp_def eq del: upt_Suc)
  qed
qed

lemma keep_first_nil_filter:
  "keep_first key [] cs
     = map (nth cs) (filter (\<lambda>i. \<forall>j < i. key (cs ! j) \<noteq> key (cs ! i)) [0 ..< length cs])"
  using keep_first_filter [of key "[]" cs] by simp
section \<open>C6: merged clauses of a large document have distinct prefixes\<close>

lemma dedup_loop_keep_first:
  "dedup_loop u cs = keep_first (\<lambda>c. strip (take 100 c)) u cs"
proof (induction cs arbitrary: u)
  case Nil
  then show ?case by simp
next
  case (Cons c cs)
  have "list_ex (\<lambda>existing. strip (take 100 existing) = strip (take 100 c)) u
      \<longleftrightarrow> strip (take 100 c) \<in> (\<lambda>c. strip (take 100 c)) ` set u"
    unfolding list_ex_iff image_iff by (rule iffI) (metis, metis)
  then show ?case using Cons.IH by (simp add: Let_def)
qed

lemma distinct_map_comp:
  assumes "distinct (map (\<lambda>x. f (g x)) xs)"
  shows "distinct (map g xs)"
proof -
  have "map (\<lambda>x. f (g x)) xs = map f (map g xs)" by simp
  then show ?thesis using assms by (metis distinct_map)
qed

text \<open>Texts without a full stop are cut every 4500 characters, and the pieces of a text
  around an indicator that occurs nowhere else are its clauses: this evaluates the chunked
  path on the example text.\<close>

lemma py_rfind_absent: "c \<notin> set s \<Longrightarrow> py_rfind s c i j = - 1"
proof -
  assume a: "c \<notin> set s"
  have "py_index (length s) j \<le> length s" by (auto simp: py_index_def max_def)
  then have "filter (\<lambda>p. s ! p = c) (rev [py_index (length s) i..<py_index (length s) j]) = []"
    using a by (auto simp: filter_empty_conv)
  then show ?thesis by (simp add: py_rfind_def Let_def)
qed

lemma chunk_loop_no_dot:
  assumes nd: "CHR ''.'' \<notin> set text" and lt: "start < length text"
  shows "chunk_loop text 5000 500 (int start) acc
       = chunk_loop text 5000 500
           (int (if start + 5000 < length text then start + 4500 else start + 5000))
           (acc @ [take 5000 (drop start text)])"
proof -
  have sl: "py_slice text (int start) (int (start + 5000)) = take 5000 (drop start text)"
    using py_slice_nat [of start "text" "start + 5000"] lt by simp
  have "int start + 5000 = int (start + 5000)" by simp
  then show ?thesis
    using lt sl by (subst chunk_loop.simps) (simp add: Let_def py_rfind_absent [OF nd] add.commute)
qed

lemma chunk_loop_done:
  "length text \<le> start \<Longrightarrow> chunk_loop text 5000 500 (int start) acc = Some acc"
  by (subst chunk_loop.simps) simp

lemma example_text_length: "length example_text = 10233"
  by (simp add: example_text_def example_clause_a_def example_clause_b_def)

lemma example_text_no_dot: "CHR ''.'' \<notin> set example_text"
  by (simp add: example_text_def example_clause_a_def example_clause_b_def)

lemma example_text_chunks:
  "chunk_text example_text 5000 500
     = Some [take 5000 example_text, take 5000 (drop 4500 example_text), take 5000 (drop 9000 example_text)]"
proof -
  have 1: "chunk_loop example_text 5000 500 (int 0) []
         = chunk_loop example_text 5000 500 (int 4500) ([] @ [take 5000 (drop 0 example_text)])"
    using chunk_loop_no_dot [OF example_text_no_dot, of 0 "[]"] by (simp add: example_text_length)
  have 2: "chunk_loop example_text 5000 500 (int 4500) [take 5000 example_text]
         = chunk_loop example_text 5000 500 (int 9000)
             ([take 5000 example_text] @ [take 5000 (drop 4500 example_text)])"
    using chunk_loop_no_dot [OF example_text_no_dot, of 4500 "[take 5000 example_text]"]
    by (simp add: example_text_length)
  have 3: "chunk_loop example_text 5000 500 (int 9000)
             [take 5000 example_text, take 5000 (drop 4500 example_text)]
         = chunk_loop example_text 5000 500 (int 14000)
             ([take 5000 example_text, take 5000 (drop 4500 example_text)]
                @ [take 5000 (drop 9000 example_text)])"
    using chunk_loop_no_dot [OF example_text_no_dot, of 9000
        "[take 5000 example_text, take 5000 (drop 4500 example_text)]"]
    by (simp add: example_text_length)
  have 4: "chunk_loop example_text 5000 500 (int 14000)
             [take 5000 example_text, take 5000 (drop 4500 example_text), take 5000 (drop 9000 example_text)]
         = Some [take 5000 example_text, take 5000 (drop 4500 example_text), take 5000 (drop 9000 example_text)]"
    by (rule chunk_loop_done) (simp add: example_text_length)
  show ?thesis using 1 2 3 4 by (simp add: chunk_text_def)
qed

lemma example_text_chunk1:
  "take 5000 example_text = example_clause_a @ [CHR 0x0A, CHR 0x0A] @ example_clause_b @ [CHR 0x0A, CHR 0x0A]
                 @ replicate 4767 (CHR ''y'')"
  by (simp add: example_text_def example_clause_a_def example_clause_b_def)

lemma example_text_chunk2: "take 5000 (drop 4500 example_text) = replicate 5000 (CHR ''y'')"
  by (simp add: example_text_def example_clause_a_def example_clause_b_def)

lemma example_text_chunk3: "take 5000 (drop 9000 example_text) = replicate 1233 (CHR ''y'')"
  by (simp add: example_text_def example_clause_a_def example_clause_b_def)

lemma split_on_aux_fresh:
  "sep \<noteq> [] \<Longrightarrow> hd sep \<notin> set xs \<Longrightarrow>
     split_on_aux sep 0 w (xs @ ys) = split_on_aux sep 0 (rev xs @ w) ys"
proof (induction xs arbitrary: w)
  case Nil
  then show ?case by simp
next
  case (Cons x xs)
  obtain s ss where sep: "sep = s # ss" using Cons.prems(1) by (cases sep) auto
  have "\<not> prefix sep ((x # xs) @ ys)" using Cons.prems(2) sep by simp
  then have "split_on_aux sep 0 w ((x # xs) @ ys) = split_on_aux sep 0 (x # w) (xs @ ys)"
    by simp
  also have "\<dots> = split_on_aux sep 0 (rev xs @ x # w) ys"
    using Cons.IH [of "x # w"] Cons.prems by simp
  finally show ?case by simp
qed

lemma split_on_aux_skip:
  "split_on_aux sep (length xs) w (xs @ ys) = split_on_aux sep 0 w ys"
  by (induction xs) simp_all

lemma split_on_aux_sep:
  assumes "sep \<noteq> []"
  shows "split_on_aux sep 0 w (sep @ ys) = rev w # split_on_aux sep 0 [] ys"
proof -
  obtain s ss where sep: "sep = s # ss" using assms by (cases sep) auto
  have "split_on_aux sep 0 w (sep @ ys) = rev w # split_on_aux sep (length ss) [] (ss @ ys)"
    unfolding sep by simp
  then show ?thesis by (simp add: split_on_aux_skip)
qed

lemma split_on_fresh:
  assumes "sep \<noteq> []" "hd sep \<notin> set s"
  shows "split_on sep s = [s]"
  using split_on_aux_fresh [OF assms, of "[]" "[]"] by (simp add: split_on_def)

lemma split_on_append:
  assumes "sep \<noteq> []" "hd sep \<notin> set xs"
  shows "split_on sep (xs @ sep @ ys) = xs # split_on sep ys"
  using split_on_aux_fresh [OF assms, of "[]" "sep @ ys"] split_on_aux_sep [OF assms(1), of "rev xs" ys]
  by (simp add: split_on_def)

lemma strip_trailing:
  assumes "s \<noteq> []" "\<not> is_space (hd s)" "\<not> is_space (last s)" "\<forall>c \<in> set t. is_space c"
  shows "strip (s @ t) = s"
proof -
  have 1: "dropWhile is_space (s @ t) = s @ t" using assms(1,2) by (cases s) simp_all
  have 2: "dropWhile is_space (rev t @ rev s) = dropWhile is_space (rev s)"
    using assms(4) by (intro dropWhile_append2) simp
  have 3: "dropWhile is_space (rev s) = rev s"
    using assms(1,3) by (cases "rev s") (simp_all add: last_rev [symmetric] hd_rev)
  show ?thesis unfolding strip_def 1 using 2 3 by simp
qed

lemma strip_id:
  assumes "s \<noteq> []" "\<not> is_space (hd s)" "\<not> is_space (last s)"
  shows "strip s = s"
  using strip_trailing [OF assms, of "[]"] by simp

lemma space_facts:
  "\<not> is_space (CHR ''x'')" "\<not> is_space (CHR ''y'')" "\<not> is_space (CHR ''e'')"
  "is_space (CHR '' '')"
  by code_simp+

lemma strip_ys: "0 < n \<Longrightarrow> strip (replicate n (CHR ''y'')) = replicate n (CHR ''y'')"
  by (rule strip_id) (simp_all add: space_facts)

lemma example_strip_a: "strip example_clause_a = example_clause_a"
  by (rule strip_id) (simp_all add: example_clause_a_def space_facts)

lemma example_strip_b: "strip example_clause_b = example_clause_b"
  by (rule strip_id) (simp_all add: example_clause_b_def space_facts)

lemma extract_clauses_ys:
  assumes "50 < n"
  shows "extract_clauses (replicate n (CHR ''y'')) = [replicate n (CHR ''y'')]"
proof -
  have "indicator_loop (replicate n (CHR ''y'')) clause_indicators = []"
    by (simp add: clause_indicators_def split_on_fresh)
  then show ?thesis using assms by (simp add: extract_clauses_def strip_ys)
qed

lemma example_text_split:
  "split_on [CHR 0x0A, CHR 0x0A]
      (example_clause_a @ [CHR 0x0A, CHR 0x0A] @ example_clause_b @ [CHR 0x0A, CHR 0x0A]
                 @ replicate 4767 (CHR ''y''))
     = [example_clause_a, example_clause_b, replicate 4767 (CHR ''y'')]"
proof -
  have a: "hd [CHR 0x0A, CHR 0x0A] \<notin> set example_clause_a" by (simp add: example_clause_a_def)
  have b: "hd [CHR 0x0A, CHR 0x0A] \<notin> set example_clause_b" by (simp add: example_clause_b_def)
  have y: "hd [CHR 0x0A, CHR 0x0A] \<notin> set (replicate 4767 (CHR ''y''))" by simp
  have n: "[CHR 0x0A, CHR 0x0A] \<noteq> []" by simp
  show ?thesis
    unfolding split_on_append [OF n a] split_on_append [OF n b] split_on_fresh [OF n y] ..
qed

lemma example_text_clauses1:
  "extract_clauses (example_clause_a @ [CHR 0x0A, CHR 0x0A] @ example_clause_b @ [CHR 0x0A, CHR 0x0A]
                 @ replicate 4767 (CHR ''y''))
     = [example_clause_a, example_clause_b, replicate 4767 (CHR ''y'')]"
proof -
  define t where "t = example_clause_a @ [CHR 0x0A, CHR 0x0A] @ example_clause_b @ [CHR 0x0A, CHR 0x0A]
                 @ replicate 4767 (CHR ''y'')"
  have ne: "example_clause_a \<noteq> []" "example_clause_b \<noteq> []" by (simp_all add: example_clause_a_def example_clause_b_def)
  have len: "length example_clause_a = 130" "length example_clause_b = 99"
    by (simp_all add: example_clause_a_def example_clause_b_def)
  have sp: "split_on [CHR 0x0A, CHR 0x0A] t = [example_clause_a, example_clause_b, replicate 4767 (CHR ''y'')]"
    unfolding t_def by (rule example_text_split)
  have "indicator_loop t clause_indicators = [example_clause_a, example_clause_b, replicate 4767 (CHR ''y'')]"
    unfolding clause_indicators_def indicator_loop.simps sp
    by (simp add: example_strip_a example_strip_b strip_ys ne)
  then have "extract_clauses t = [example_clause_a, example_clause_b, replicate 4767 (CHR ''y'')]"
    by (simp add: extract_clauses_def len)
  then show ?thesis unfolding t_def .
qed

lemma example_text_candidates:
  "concat (map extract_clauses
      [take 5000 example_text, take 5000 (drop 4500 example_text), take 5000 (drop 9000 example_text)])
     = [example_clause_a, example_clause_b, replicate 4767 (CHR ''y''), replicate 5000 (CHR ''y''),
        replicate 1233 (CHR ''y'')]"
proof -
  have e2: "extract_clauses (replicate 5000 (CHR ''y'')) = [replicate 5000 (CHR ''y'')]"
    by (rule extract_clauses_ys) simp
  have e3: "extract_clauses (replicate 1233 (CHR ''y'')) = [replicate 1233 (CHR ''y'')]"
    by (rule extract_clauses_ys) simp
  show ?thesis
    unfolding example_text_chunk1 example_text_chunk2 example_text_chunk3 list.map
      example_text_clauses1 e2 e3
    by simp
qed

lemma example_prefix_a: "strip (take 100 example_clause_a) = example_clause_b"
proof -
  have "take 100 example_clause_a = example_clause_b @ '' ''" by (simp add: example_clause_a_def example_clause_b_def)
  moreover have "strip (example_clause_b @ '' '') = example_clause_b"
    by (rule strip_trailing) (simp_all add: example_clause_b_def space_facts)
  ultimately show ?thesis by simp
qed

lemma example_prefix_b: "strip (take 100 example_clause_b) = example_clause_b"
proof -
  have "take 100 example_clause_b = example_clause_b" by (simp add: example_clause_b_def)
  then show ?thesis by (simp add: example_strip_b)
qed

lemma prefix_ys: "100 \<le> n \<Longrightarrow> strip (take 100 (replicate n (CHR ''y''))) = replicate 100 (CHR ''y'')"
  by (simp add: min_absorb1 strip_ys)

lemma example_text_dedup:
  "deduplicate_clauses [example_clause_a, example_clause_b, replicate 4767 (CHR ''y''),
       replicate 5000 (CHR ''y''), replicate 1233 (CHR ''y'')]
     = [example_clause_a, replicate 4767 (CHR ''y'')]"
proof -
  have "example_clause_b \<noteq> replicate 100 (CHR ''y'')" by (simp add: example_clause_b_def)
  then show ?thesis
    by (simp add: deduplicate_clauses_def Let_def example_prefix_a example_prefix_b strip_ys)
qed

lemma example_text_result:
  "extract_clauses_async example_text = Some [example_clause_a, replicate 4767 (CHR ''y'')]"
proof -
  have big: "10000 < length example_text" by (simp add: example_text_length)
  have "extract_clauses_async example_text
      = Some (deduplicate_clauses (concat (map extract_clauses
          [take 5000 example_text, take 5000 (drop 4500 example_text), take 5000 (drop 9000 example_text)])))"
    using big unfolding extract_clauses_async_def example_text_chunks by simp
  then show ?thesis by (simp only: example_text_candidates example_text_dedup)
qed

text \<open>
  Claim C6 as stated: of the candidates that share their first 100 characters the first
  is returned, so a candidate whose first 100 characters no earlier candidate has is
  kept. \<^verbatim>\<open>_deduplicate_clauses\<close> compares \<^verbatim>\<open>clause[:100].strip()\<close>, the prefix without the
  white space around it. The example text has 10233 characters; its candidates are the
  two clauses of the first chunk, \<open>example_clause_a\<close> and \<open>example_clause_b\<close>, and three
  runs of \<open>y\<close>. The first 100 characters of \<open>example_clause_b\<close> are those of no other
  candidate, and it is dropped: its stripped prefix is that of \<open>example_clause_a\<close>.
\<close>

theorem raw_prefix_first_occurrence_counterexample:
  "10000 < length example_text
   \<and> (\<exists>chunks. chunk_text example_text 5000 500 = Some chunks
         \<and> concat (map extract_clauses chunks)
             = [example_clause_a, example_clause_b, replicate 4767 (CHR ''y''), replicate 5000 (CHR ''y''), replicate 1233 (CHR ''y'')])
   \<and> extract_clauses_async example_text = Some [example_clause_a, replicate 4767 (CHR ''y'')]
   \<and> take 100 example_clause_b \<noteq> take 100 example_clause_a
   \<and> take 100 example_clause_b \<notin> set (map (take 100) [example_clause_a, replicate 4767 (CHR ''y'')])
   \<and> strip (take 100 example_clause_b) = strip (take 100 example_clause_a)"
proof -
  have 1: "10000 < length example_text" by (simp add: example_text_length)
  have 2: "\<exists>chunks. chunk_text example_text 5000 500 = Some chunks
         \<and> concat (map extract_clauses chunks)
             = [example_clause_a, example_clause_b, replicate 4767 (CHR ''y''), replicate 5000 (CHR ''y''), replicate 1233 (CHR ''y'')]"
    using example_text_chunks example_text_candidates by blast
  have la: "length (take 100 example_clause_a) = 100" by (simp add: example_clause_a_def)
  have lb: "length (take 100 example_clause_b) = 99" by (simp add: example_clause_b_def)
  have ly: "length (take 100 (replicate 4767 (CHR ''y''))) = 100" by simp
  have 4: "take 100 example_clause_b \<noteq> take 100 example_clause_a"
  proof
    assume "take 100 example_clause_b = take 100 example_clause_a"
    from arg_cong [OF this, of length] show False unfolding la lb by simp
  qed
  have 5: "take 100 example_clause_b \<noteq> take 100 (replicate 4767 (CHR ''y''))"
  proof
    assume "take 100 example_clause_b = take 100 (replicate 4767 (CHR ''y''))"
    from arg_cong [OF this, of length] show False unfolding ly lb by simp
  qed
  have 6: "strip (take 100 example_clause_b) = strip (take 100 example_clause_a)"
    by (simp only: example_prefix_a example_prefix_b)
  show ?thesis
    using 1 2 example_text_result 4 5 6 by simp
qed

text \<open>
  Claim C6, amended. For a text of more than 10000 characters \<^verbatim>\<open>_extract_clauses_async\<close>
  returns: it splits the text into chunks, extracts the clauses of every chunk and removes
  duplicates from the clause lists joined in the order of the chunks. The result is
  exactly the list of the candidates, in their order, whose first 100 characters with the
  white space around them stripped are those of no earlier candidate: the first
  occurrence of each stripped prefix is kept and every later one is dropped. Hence no two
  clauses of the result have the same stripped prefix, or the same first 100 characters;
  the result keeps the order of the candidates; and a clause that is kept is the first
  candidate with its first 100 characters.
\<close>

theorem chunked_clauses_first_stripped_prefix:
  "10000 < length text \<Longrightarrow>
     \<exists>chunks candidates kept.
        chunk_text text 5000 500 = Some chunks
      \<and> candidates = concat (map extract_clauses chunks)
      \<and> extract_clauses_async text = Some kept
      \<and> kept = map (nth candidates)
                 (filter (\<lambda>i. \<forall>j < i. strip (take 100 (candidates ! j))
                                          \<noteq> strip (take 100 (candidates ! i)))
                         [0 ..< length candidates])
      \<and> distinct (map (\<lambda>c. strip (take 100 c)) kept)
      \<and> distinct (map (take 100) kept)
      \<and> subseq kept candidates
      \<and> (\<forall>c \<in> set kept. \<exists>i < length candidates. candidates ! i = c
            \<and> (\<forall>j < i. take 100 (candidates ! j) \<noteq> take 100 c))"
proof -
  assume big: "10000 < length text"
  obtain spans where "chunk_text text 5000 500 = Some (map (\<lambda>(s, e). take (e - s) (drop s text)) spans)"
    using chunk_loop_covers [of "text" 0 "[]"] by (auto simp: chunk_text_def)
  then obtain chunks where ch: "chunk_text text 5000 500 = Some chunks" by blast
  define candidates where "candidates = concat (map extract_clauses chunks)"
  obtain ks where ks: "keep_first (\<lambda>c. strip (take 100 c)) [] candidates = [] @ ks"
     "subseq ks candidates"
     "distinct (map (\<lambda>c. strip (take 100 c)) []) \<longrightarrow> distinct (map (\<lambda>c. strip (take 100 c)) ([] @ ks))"
     "\<forall>c \<in> set ks. strip (take 100 c) \<notin> (\<lambda>c. strip (take 100 c)) ` set []
          \<and> (\<exists>i < length candidates. candidates ! i = c
               \<and> (\<forall>j < i. strip (take 100 (candidates ! j)) \<noteq> strip (take 100 c)))"
    using keep_first_props [of "\<lambda>c. strip (take 100 c)" "[]" candidates] by blast
  have r: "extract_clauses_async text = Some ks"
    using big ch ks(1)
    by (simp add: extract_clauses_async_def deduplicate_clauses_def candidates_def
        dedup_loop_keep_first)
  have e: "ks = map (nth candidates)
                 (filter (\<lambda>i. \<forall>j < i. strip (take 100 (candidates ! j))
                                          \<noteq> strip (take 100 (candidates ! i)))
                         [0 ..< length candidates])"
    using ks(1) keep_first_nil_filter [of "\<lambda>c. strip (take 100 c)" candidates] by simp
  have ds: "distinct (map (\<lambda>c. strip (take 100 c)) ks)" using ks(3) by simp
  have d: "distinct (map (take 100) ks)"
    using ds distinct_map_comp [of strip "take 100" ks] by simp
  have f: "\<forall>c \<in> set ks. \<exists>i < length candidates. candidates ! i = c
            \<and> (\<forall>j < i. take 100 (candidates ! j) \<noteq> take 100 c)"
  proof
    fix c assume "c \<in> set ks"
    then obtain i where "i < length candidates" "candidates ! i = c"
      "\<forall>j < i. strip (take 100 (candidates ! j)) \<noteq> strip (take 100 c)" using ks(4) by blast
    then have "i < length candidates \<and> candidates ! i = c
       \<and> (\<forall>j < i. take 100 (candidates ! j) \<noteq> take 100 c)" by auto
    then show "\<exists>i < length candidates. candidates ! i = c
            \<and> (\<forall>j < i. take 100 (candidates ! j) \<noteq> take 100 c)" by blast
  qed
  show ?thesis
    apply (rule exI [of _ chunks])
    apply (rule exI [of _ candidates])
    apply (rule exI [of _ ks])
    using ch candidates_def r e ds d ks(2) f by (intro conjI)
qed

theorem chunked_clauses_first_stripped_prefix_witness:
  "10000 < length example_text
   \<and> (\<exists>chunks candidates kept.
        chunk_text example_text 5000 500 = Some chunks
      \<and> candidates = concat (map extract_clauses chunks)
      \<and> extract_clauses_async example_text = Some kept
      \<and> kept = [example_clause_a, replicate 4767 (CHR ''y'')]
      \<and> kept = map (nth candidates)
                 (filter (\<lambda>i. \<forall>j < i. strip (take 100 (candidates ! j))
                                          \<noteq> strip (take 100 (candidates ! i)))
                         [0 ..< length candidates])
      \<and> distinct (map (take 100) kept)
      \<and> subseq kept candidates)"
proof -
  have h: "10000 < length example_text" by (simp add: example_text_length)
  obtain chunks candidates kept where k:
      "chunk_text example_text 5000 500 = Some chunks"
      "candidates = concat (map extract_clauses chunks)"
      "extract_clauses_async example_text = Some kept"
      "kept = map (nth candidates)
                 (filter (\<lambda>i. \<forall>j < i. strip (take 100 (candidates ! j))
                                          \<noteq> strip (take 100 (candidates ! i)))
                         [0 ..< length candidates])"
      "distinct (map (take 100) kept)"
      "subseq kept candidates"
    using chunked_clauses_first_stripped_prefix [OF h] by blast
  have v: "kept = [example_clause_a, replicate 4767 (CHR ''y'')]"
    using k(3) example_text_result by simp
  show ?thesis
    apply (rule conjI [OF h])
    apply (rule exI [of _ chunks])
    apply (rule exI [of _ candidates])
    apply (rule exI [of _ kept])
    using k v by (intro conjI)
qed

section \<open>C7: a failed clause is left out of its batch\<close>

lemma successes_append: "successes (xs @ ys) = successes xs @ successes ys"
  by (induction xs rule: successes.induct) auto

lemma successes_length: "length (successes xs) \<le> length xs"
  by (induction xs rule: successes.induct) auto

lemma successes_subseq: "subseq (map Inr (successes xs)) xs"
  by (induction xs rule: successes.induct) auto

lemma successes_complete: "Inr r \<in> set xs \<Longrightarrow> r \<in> set (successes xs)"
  by (induction xs rule: successes.induct) auto

lemma batch_results_eq:
  "batch_results run clauses i bs
     = map (\<lambda>j. run j (clauses ! j)) [min i (length clauses)..<min (i + bs) (length clauses)]"
proof -
  let ?batch = "take bs (drop i clauses)"
  have len: "length ?batch = min bs (length clauses - i)" by simp
  have "batch_results run clauses i bs
      = map (\<lambda>(j, clause). run j clause) (zip [i..<i + length ?batch] ?batch)"
    by (simp add: batch_results_def Let_def)
  also have "\<dots> = map (\<lambda>j. run j (clauses ! j)) [i..<i + length ?batch]"
  proof (rule nth_equalityI)
    show "length (map (\<lambda>(j, clause). run j clause) (zip [i..<i + length ?batch] ?batch))
        = length (map (\<lambda>j. run j (clauses ! j)) [i..<i + length ?batch])" by simp
  next
    fix k assume "k < length (map (\<lambda>(j, clause). run j clause) (zip [i..<i + length ?batch] ?batch))"
    then have k: "k < length ?batch" by simp
    then have "k < length clauses - i" by simp
    then have "i + k < length clauses" by linarith
    then have "?batch ! k = clauses ! (i + k)" using k by (simp add: nth_drop)
    then show "map (\<lambda>(j, clause). run j clause) (zip [i..<i + length ?batch] ?batch) ! k
        = map (\<lambda>j. run j (clauses ! j)) [i..<i + length ?batch] ! k"
      using k by simp
  qed
  also have "[i..<i + length ?batch] = [min i (length clauses)..<min (i + bs) (length clauses)]"
  proof (cases "i \<le> length clauses")
    case True
    then have "i + length ?batch = min (i + bs) (length clauses)"
      unfolding len min_def by (simp, linarith)
    then show ?thesis using True by (simp add: min_def)
  next
    case False
    then show ?thesis by simp
  qed
  finally show ?thesis .
qed

lemma batch_loop_eq:
  assumes "0 < bs" "i \<le> stop \<or> stop \<le> i"
  shows "\<exists>k. i \<le> k \<and> stop \<le> k \<and> (i < stop \<longrightarrow> k < stop + bs) \<and> (stop \<le> i \<longrightarrow> k = i)
    \<and> batch_loop run clauses bs stop i acc
        = acc @ successes (map (\<lambda>j. run j (clauses ! j))
                             [min i (length clauses)..<min k (length clauses)])"
  using assms
proof (induction run clauses bs stop i acc rule: batch_loop.induct)
  case (1 run clauses bs stop i acc)
  show ?case
  proof (cases "i < stop")
    case False
    then have "batch_loop run clauses bs stop i acc = acc"
      by (subst batch_loop.simps) simp
    then show ?thesis using False by (intro exI[of _ i]) simp
  next
    case True
    let ?f = "\<lambda>j. run j (clauses ! j)"
    let ?acc = "acc @ successes (batch_results run clauses i bs)"
    have step: "batch_loop run clauses bs stop i acc = batch_loop run clauses bs stop (i + bs) ?acc"
      using True 1(2) by (subst batch_loop.simps) simp
    obtain k where k: "i + bs \<le> k" "stop \<le> k" "i + bs < stop \<longrightarrow> k < stop + bs"
      "stop \<le> i + bs \<longrightarrow> k = i + bs"
      "batch_loop run clauses bs stop (i + bs) ?acc
        = ?acc @ successes (map ?f [min (i + bs) (length clauses)..<min k (length clauses)])"
    proof -
      have c: "i < stop \<and> 0 < bs" using True 1(2) by simp
      have d: "i + bs \<le> stop \<or> stop \<le> i + bs" by linarith
      from 1(1) [OF c 1(2) d] show ?thesis using that by blast
    qed
    have rng: "[min i (length clauses)..<min k (length clauses)]
        = [min i (length clauses)..<min (i + bs) (length clauses)]
          @ [min (i + bs) (length clauses)..<min k (length clauses)]"
    proof -
      have "min i (length clauses) \<le> min (i + bs) (length clauses)" by simp
      moreover have "min (i + bs) (length clauses) \<le> min k (length clauses)"
        using k(1) by simp
      ultimately show ?thesis
        using upt_add_eq_append [of "min i (length clauses)" "min (i + bs) (length clauses)"
            "min k (length clauses) - min (i + bs) (length clauses)"]
        by simp
    qed
    have "batch_loop run clauses bs stop i acc
        = acc @ successes (map ?f [min i (length clauses)..<min k (length clauses)])"
      unfolding step k(5) rng by (simp add: batch_results_eq successes_append)
    moreover have "i \<le> k" using k(1) by simp
    moreover have "k < stop + bs" using k(3,4) True by (cases "i + bs < stop") auto
    ultimately show ?thesis using k(2) True by (intro exI[of _ k]) simp
  qed
qed

text \<open>
  Claim C7. For a positive batch size \<^verbatim>\<open>_simplify_clauses_batch_async\<close> returns a list and
  never raises. It attempts the clauses at the positions below some \<open>k\<close>, which covers at
  least the first ten clauses, and returns the results of the attempts that did not
  raise, in the order of the clauses: every successful attempt is in the result, a failed
  one is left out and stops neither its batch nor a later batch. The result is therefore
  at most as long as the clause list.
\<close>

theorem batch_failures_excluded_in_order:
  "0 < batch_size \<Longrightarrow>
     \<exists>k. min (length clauses) 10 \<le> k \<and> k \<le> length clauses
       \<and> simplify_clauses_batch_async run clauses batch_size
           = successes (map (\<lambda>j. run j (clauses ! j)) [0..<k])
       \<and> subseq (map Inr (simplify_clauses_batch_async run clauses batch_size))
                 (map (\<lambda>j. run j (clauses ! j)) [0..<k])
       \<and> (\<forall>j < k. \<forall>r. run j (clauses ! j) = Inr r \<longrightarrow>
             r \<in> set (simplify_clauses_batch_async run clauses batch_size))
       \<and> length (simplify_clauses_batch_async run clauses batch_size) \<le> length clauses"
proof -
  assume bs: "0 < batch_size"
  let ?f = "\<lambda>j. run j (clauses ! j)"
  have nb: "0 < nat batch_size" using bs by simp
  obtain k where k: "min (length clauses) 10 \<le> k"
    "batch_loop run clauses (nat batch_size) (min (length clauses) 10) 0 []
        = [] @ successes (map ?f [min 0 (length clauses)..<min k (length clauses)])"
    using batch_loop_eq [OF nb, of 0 "min (length clauses) 10" run clauses "[]"] by auto
  define k2 where "k2 = min k (length clauses)"
  have r: "simplify_clauses_batch_async run clauses batch_size = successes (map ?f [0..<k2])"
    using bs k(2) by (simp add: simplify_clauses_batch_async_def k2_def)
  have 1: "min (length clauses) 10 \<le> k2" using k(1) by (simp add: k2_def)
  have 2: "k2 \<le> length clauses" by (simp add: k2_def)
  have 3: "subseq (map Inr (simplify_clauses_batch_async run clauses batch_size)) (map ?f [0..<k2])"
    unfolding r by (rule successes_subseq)
  have 4: "\<forall>j < k2. \<forall>r. run j (clauses ! j) = Inr r \<longrightarrow>
             r \<in> set (simplify_clauses_batch_async run clauses batch_size)"
  proof (intro allI impI)
    fix j r assume "j < k2" "run j (clauses ! j) = Inr r"
    then have "?f j = Inr r \<and> j \<in> set [0..<k2]" by simp
    then have "Inr r \<in> ?f ` set [0..<k2]" by (metis imageI)
    then have "Inr r \<in> set (map ?f [0..<k2])" by simp
    then show "r \<in> set (simplify_clauses_batch_async run clauses batch_size)"
      unfolding r by (rule successes_complete)
  qed
  have "length (simplify_clauses_batch_async run clauses batch_size) \<le> length (map ?f [0..<k2])"
    unfolding r by (rule successes_length)
  then have 5: "length (simplify_clauses_batch_async run clauses batch_size) \<le> length clauses"
    using 2 by simp
  show ?thesis using 1 2 r 3 4 5 by blast
qed

theorem batch_failures_excluded_in_order_witness:
  "(0::int) < 3
   \<and> simplify_clauses_batch_async
        (\<lambda>j c. if c = ''b'' then Inl ValueError else Inr (j, c)) [''a'', ''b'', ''c'', ''d''] 3
       = [(0, ''a''), (2, ''c''), (3, ''d'')]
   \<and> (\<exists>k. min (length [''a'', ''b'', ''c'', ''d'']) 10 \<le> k
        \<and> simplify_clauses_batch_async
             (\<lambda>j c. if c = ''b'' then Inl ValueError else Inr (j, c)) [''a'', ''b'', ''c'', ''d''] 3
           = successes (map (\<lambda>j. (\<lambda>j c. if c = ''b'' then Inl ValueError else Inr (j, c)) j
                                  ([''a'', ''b'', ''c'', ''d''] ! j)) [0..<k]))"
proof -
  have h: "(0::int) < 3" by simp
  have e: "simplify_clauses_batch_async
        (\<lambda>j c. if c = ''b'' then Inl ValueError else Inr (j, c)) [''a'', ''b'', ''c'', ''d''] 3
       = [(0, ''a''), (2, ''c''), (3, ''d'')]" by code_simp
  show ?thesis
    using h e batch_failures_excluded_in_order
      [OF h, of "[''a'', ''b'', ''c'', ''d'']" "\<lambda>j c. if c = ''b'' then Inl ValueError else Inr (j, c)"]
    by blast
qed

section \<open>C5: entities of a family are unique up to case\<close>

lemma keep_first_append:
  "keep_first key u (xs @ ys) = keep_first key (keep_first key u xs) ys"
  by (induction xs arbitrary: u) auto

lemma keep_first_keys: "key ` set (keep_first key u cs) = key ` (set u \<union> set cs)"
proof (induction cs arbitrary: u)
  case Nil
  then show ?case by simp
next
  case (Cons c cs)
  show ?case
  proof (cases "key c \<in> key ` set u")
    case True
    then have "key ` set (keep_first key u (c # cs)) = key ` (set u \<union> set cs)"
      using Cons.IH [of u] by simp
    also have "\<dots> = key ` (set u \<union> set (c # cs))" using True by auto
    finally show ?thesis .
  next
    case False
    then have "key ` set (keep_first key u (c # cs)) = key ` (set (u @ [c]) \<union> set cs)"
      using Cons.IH [of "u @ [c]"] by simp
    also have "\<dots> = key ` (set u \<union> set (c # cs))" by auto
    finally show ?thesis .
  qed
qed

lemma keep_first_nil:
  shows keep_first_nil_distinct: "distinct (map key (keep_first key [] cs))"
    and keep_first_nil_subseq: "subseq (keep_first key [] cs) cs"
    and keep_first_nil_first: "\<forall>c \<in> set (keep_first key [] cs).
          \<exists>k < length cs. cs ! k = c \<and> (\<forall>j < k. key (cs ! j) \<noteq> key c)"
proof -
  obtain ks where ks: "keep_first key [] cs = [] @ ks" "subseq ks cs"
      "distinct (map key []) \<longrightarrow> distinct (map key ([] @ ks))"
      "\<forall>c \<in> set ks. key c \<notin> key ` set []
          \<and> (\<exists>k < length cs. cs ! k = c \<and> (\<forall>j < k. key (cs ! j) \<noteq> key c))"
    using keep_first_props [of key "[]" cs] by blast
  show "distinct (map key (keep_first key [] cs))" using ks(1,3) by simp
  show "subseq (keep_first key [] cs) cs" using ks(1,2) by simp
  show "\<forall>c \<in> set (keep_first key [] cs).
          \<exists>k < length cs. cs ! k = c \<and> (\<forall>j < k. key (cs ! j) \<noteq> key c)"
    using ks(1,4) by simp
qed

lemma entity_match_loop_keep_first:
  "entity_match_loop text ms found
     = keep_first (\<lambda>e. lower (ent_text e)) found (map (make_entity text) ms)"
proof (induction ms arbitrary: found)
  case Nil
  then show ?case by simp
next
  case (Cons m ms)
  have "list_ex (\<lambda>e. lower (ent_text e) = lower (ent_text (make_entity text m))) found
      \<longleftrightarrow> lower (ent_text (make_entity text m)) \<in> (\<lambda>e. lower (ent_text e)) ` set found"
    unfolding list_ex_iff image_iff by (rule iffI) (metis, metis)
  then show ?case using Cons.IH by (simp add: Let_def)
qed

lemma entity_pattern_loop_re:
  "entity_pattern_loop re_finditer text ps found
     = Inr (keep_first (\<lambda>e. lower (ent_text e)) found (entity_candidates text ps))"
proof (induction ps arbitrary: found)
  case Nil
  then show ?case by (simp add: entity_candidates_def)
next
  case (Cons p ps)
  have c: "entity_candidates text (p # ps)
      = map (make_entity text)
          (map (\<lambda>(i, j). \<lparr>m_start = i, m_end = j, m_groups = []\<rparr>) (finditer True p text))
        @ entity_candidates text ps"
    by (simp add: entity_candidates_def comp_def case_prod_unfold)
  show ?case
    unfolding c keep_first_append
    using Cons.IH by (simp add: re_finditer_def entity_match_loop_keep_first)
qed

lemma entity_family_loop_re:
  "entity_family_loop re_finditer text table acc
     = Inr (acc @ map (\<lambda>fp. (fst fp, keep_first (\<lambda>e. lower (ent_text e)) []
                                         (entity_candidates text (snd fp)))) table)"
proof (induction table arbitrary: acc)
  case Nil
  then show ?case by simp
next
  case (Cons fp table)
  obtain f ps where fp: "fp = (f, ps)" by (cases fp) auto
  show ?case unfolding fp using Cons.IH by (simp add: entity_pattern_loop_re)
qed

lemma extract_entities_eq:
  "extract_entities text
     = map (\<lambda>fp. (fst fp, keep_first (\<lambda>e. lower (ent_text e)) []
                               (entity_candidates text (snd fp)))) ner_patterns"
  by (simp add: extract_entities_def extract_entities_with_def entity_family_loop_re)

text \<open>
  Claim C5, as stated, fails on the extractor of the minimal analyzer, which removes only
  matches that are equal character by character (\<^verbatim>\<open>set(matches)\<close>) although it matches
  with \<^verbatim>\<open>re.IGNORECASE\<close>: both \<^verbatim>\<open>a@b.io\<close> and \<^verbatim>\<open>A@B.IO\<close> are reported as e-mail addresses.
\<close>

theorem minimal_entities_counterexample:
  "length (filter ((=) (lower ''a@b.io''))
             (map (lower \<circ> fst)
                (dict_get (me_entities (minimal_extract_entities ''a@b.io A@B.IO''))
                   ''email_addresses'' []))) = 2"
  by code_simp

text \<open>
  Claim C5, amended to \<^verbatim>\<open>LegalNER.extract_entities\<close>. For every text the result has one
  entry per family of the table, and in every family: no two records have texts that are
  equal when case is ignored; the records are among the candidates of the family (the
  matches of its patterns, pattern after pattern, each from the left of the text) and in
  their order; a record that is kept is the first candidate with its text up to case, with
  the span and the context of that match; and every candidate has a kept record with its
  text up to case.
\<close>

theorem entities_unique_first_kept:
  "map fst (extract_entities text) = map fst ner_patterns
   \<and> (\<forall>i < length ner_patterns.
        distinct (map (\<lambda>e. lower (ent_text e)) (snd (extract_entities text ! i)))
      \<and> subseq (snd (extract_entities text ! i))
               (entity_candidates text (snd (ner_patterns ! i)))
      \<and> (\<forall>e \<in> set (snd (extract_entities text ! i)).
            \<exists>k < length (entity_candidates text (snd (ner_patterns ! i))).
              entity_candidates text (snd (ner_patterns ! i)) ! k = e
            \<and> (\<forall>j < k. lower (ent_text (entity_candidates text (snd (ner_patterns ! i)) ! j))
                          \<noteq> lower (ent_text e)))
      \<and> (\<forall>c \<in> set (entity_candidates text (snd (ner_patterns ! i))).
            \<exists>e \<in> set (snd (extract_entities text ! i)).
              lower (ent_text e) = lower (ent_text c)))"
proof -
  let ?key = "\<lambda>e. lower (ent_text e)"
  have 1: "map fst (extract_entities text) = map fst ner_patterns"
    by (simp add: extract_entities_eq comp_def)
  have 2: "\<forall>i < length ner_patterns.
        distinct (map ?key (snd (extract_entities text ! i)))
      \<and> subseq (snd (extract_entities text ! i))
               (entity_candidates text (snd (ner_patterns ! i)))
      \<and> (\<forall>e \<in> set (snd (extract_entities text ! i)).
            \<exists>k < length (entity_candidates text (snd (ner_patterns ! i))).
              entity_candidates text (snd (ner_patterns ! i)) ! k = e
            \<and> (\<forall>j < k. ?key (entity_candidates text (snd (ner_patterns ! i)) ! j) \<noteq> ?key e))
      \<and> (\<forall>c \<in> set (entity_candidates text (snd (ner_patterns ! i))).
            \<exists>e \<in> set (snd (extract_entities text ! i)). ?key e = ?key c)"
  proof (intro allI impI)
    fix i assume i: "i < length ner_patterns"
    define cands where "cands = entity_candidates text (snd (ner_patterns ! i))"
    have r: "snd (extract_entities text ! i) = keep_first ?key [] cands"
      using i by (simp add: extract_entities_eq cands_def)
    define ks where "ks = keep_first ?key [] cands"
    have rk: "snd (extract_entities text ! i) = ks" using r by (simp add: ks_def)
    have a: "distinct (map ?key ks)" unfolding ks_def by (rule keep_first_nil_distinct)
    have b: "subseq ks cands" unfolding ks_def by (rule keep_first_nil_subseq)
    have c: "\<forall>e \<in> set ks. \<exists>k < length cands. cands ! k = e
            \<and> (\<forall>j < k. ?key (cands ! j) \<noteq> ?key e)"
      unfolding ks_def by (rule keep_first_nil_first)
    have d: "\<forall>c \<in> set cands. \<exists>e \<in> set ks. ?key e = ?key c"
    proof
      fix c assume "c \<in> set cands"
      then have "?key c \<in> ?key ` (set [] \<union> set cands)" by simp
      then have "?key c \<in> ?key ` set (keep_first ?key [] cands)"
        using keep_first_keys [of ?key "[]" cands] by simp
      then show "\<exists>e \<in> set ks. ?key e = ?key c" unfolding ks_def by auto
    qed
    show "distinct (map ?key (snd (extract_entities text ! i)))
      \<and> subseq (snd (extract_entities text ! i))
               (entity_candidates text (snd (ner_patterns ! i)))
      \<and> (\<forall>e \<in> set (snd (extract_entities text ! i)).
            \<exists>k < length (entity_candidates text (snd (ner_patterns ! i))).
              entity_candidates text (snd (ner_patterns ! i)) ! k = e
            \<and> (\<forall>j < k. ?key (entity_candidates text (snd (ner_patterns ! i)) ! j) \<noteq> ?key e))
      \<and> (\<forall>c \<in> set (entity_candidates text (snd (ner_patterns ! i))).
            \<exists>e \<in> set (snd (extract_entities text ! i)). ?key e = ?key c)"
      unfolding rk cands_def [symmetric] using a b c d by (intro conjI)
  qed
  show ?thesis using 1 2 by (rule conjI)
qed

theorem entities_unique_first_kept_witness:
  "(5::nat) < length ner_patterns
   \<and> map ent_text (entity_candidates ''a@b.io A@B.IO'' (snd (ner_patterns ! 5)))
       = [''a@b.io'', ''A@B.IO'']
   \<and> map (\<lambda>e. (ent_text e, ent_start e, ent_end e, ent_context e))
         (snd (extract_entities ''a@b.io A@B.IO'' ! 5))
       = [(''a@b.io'', 0, 6, ''a@b.io A@B.IO'')]
   \<and> distinct (map (\<lambda>e. lower (ent_text e)) (snd (extract_entities ''a@b.io A@B.IO'' ! 5)))
   \<and> subseq (snd (extract_entities ''a@b.io A@B.IO'' ! 5))
            (entity_candidates ''a@b.io A@B.IO'' (snd (ner_patterns ! 5)))"
proof -
  have h: "(5::nat) < length ner_patterns" by (simp add: ner_patterns_def)
  have c: "map ent_text (entity_candidates ''a@b.io A@B.IO'' (snd (ner_patterns ! 5)))
       = [''a@b.io'', ''A@B.IO'']" by code_simp
  have "map (\<lambda>e. (ent_text e, ent_start e, ent_end e, ent_context e))
         (keep_first (\<lambda>e. lower (ent_text e)) []
            (entity_candidates ''a@b.io A@B.IO'' (snd (ner_patterns ! 5))))
       = [(''a@b.io'', 0, 6, ''a@b.io A@B.IO'')]" by code_simp
  then have e: "map (\<lambda>e. (ent_text e, ent_start e, ent_end e, ent_context e))
         (snd (extract_entities ''a@b.io A@B.IO'' ! 5))
       = [(''a@b.io'', 0, 6, ''a@b.io A@B.IO'')]"
    using h by (simp add: extract_entities_eq)
  show ?thesis
    using h c e entities_unique_first_kept [of "''a@b.io A@B.IO''"] by blast
qed

section \<open>C8: failures inside the entity extraction\<close>

lemma entity_pattern_loop_fails:
  "\<exists>p \<in> set ps. isl (fi True p text) \<Longrightarrow> isl (entity_pattern_loop fi text ps found)"
proof (induction ps arbitrary: found)
  case Nil
  then show ?case by simp
next
  case (Cons p ps)
  show ?case
  proof (cases "fi True p text")
    case (Inl e)
    then show ?thesis by simp
  next
    case (Inr ms)
    then have "\<exists>q \<in> set ps. isl (fi True q text)" using Cons.prems by auto
    then show ?thesis using Cons.IH Inr by simp
  qed
qed

lemma entity_family_loop_fails:
  "\<exists>fp \<in> set table. \<exists>p \<in> set (snd fp). isl (fi True p text) \<Longrightarrow>
     isl (entity_family_loop fi text table acc)"
proof (induction table arbitrary: acc)
  case Nil
  then show ?case by simp
next
  case (Cons fp table)
  obtain f ps where fp: "fp = (f, ps)" by (cases fp) auto
  show ?case
  proof (cases "entity_pattern_loop fi text ps []")
    case (Inl e)
    then show ?thesis using fp by simp
  next
    case (Inr found)
    have "\<not> (\<exists>p \<in> set ps. isl (fi True p text))"
      using entity_pattern_loop_fails [of ps fi "text" "[]"] Inr by auto
    then have "\<exists>fp \<in> set table. \<exists>p \<in> set (snd fp). isl (fi True p text)"
      using Cons.prems fp by auto
    then show ?thesis using Cons.IH Inr fp by simp
  qed
qed

lemma entity_pattern_loop_ok:
  "\<forall>p \<in> set ps. \<not> isl (fi True p text) \<Longrightarrow> \<not> isl (entity_pattern_loop fi text ps found)"
proof (induction ps arbitrary: found)
  case Nil
  then show ?case by simp
next
  case (Cons p ps)
  then obtain ms where "fi True p text = Inr ms" by (cases "fi True p text") auto
  then show ?case using Cons by simp
qed

lemma entity_family_loop_ok:
  "\<forall>fp \<in> set table. \<forall>p \<in> set (snd fp). \<not> isl (fi True p text) \<Longrightarrow>
     \<exists>d. entity_family_loop fi text table acc = Inr d \<and> map fst d = map fst acc @ map fst table"
proof (induction table arbitrary: acc)
  case Nil
  then show ?case by simp
next
  case (Cons fp table)
  obtain f ps where fp: "fp = (f, ps)" by (cases fp) auto
  have "\<not> isl (entity_pattern_loop fi text ps [])"
    using Cons.prems fp by (intro entity_pattern_loop_ok) auto
  then obtain found where found: "entity_pattern_loop fi text ps [] = Inr found"
    by (cases "entity_pattern_loop fi text ps []") auto
  have "\<forall>fp \<in> set table. \<forall>p \<in> set (snd fp). \<not> isl (fi True p text)"
    using Cons.prems by simp
  then have "\<exists>d. entity_family_loop fi text table (acc @ [(f, found)]) = Inr d
      \<and> map fst d = map fst (acc @ [(f, found)]) @ map fst table"
    by (rule Cons.IH)
  then show ?case using found fp by simp
qed

lemma party_pattern_loop_fails:
  "\<exists>p \<in> set ps. isl (fi True p text) \<Longrightarrow> isl (party_pattern_loop fi text ps acc)"
proof (induction ps arbitrary: acc)
  case Nil
  then show ?case by simp
next
  case (Cons p ps)
  show ?case
  proof (cases "fi True p text")
    case (Inl e)
    then show ?thesis by simp
  next
    case (Inr ms)
    then have "\<exists>q \<in> set ps. isl (fi True q text)" using Cons.prems by auto
    then show ?thesis using Cons.IH Inr by simp
  qed
qed

lemma obligation_pattern_loop_fails:
  "\<exists>p \<in> set ps. isl (fi True p text) \<Longrightarrow> isl (obligation_pattern_loop fi text ps acc)"
proof (induction ps arbitrary: acc)
  case Nil
  then show ?case by simp
next
  case (Cons p ps)
  show ?case
  proof (cases "fi True p text")
    case (Inl e)
    then show ?thesis by simp
  next
    case (Inr ms)
    then have later: "\<exists>q \<in> set ps. isl (fi True q text)" using Cons.prems by auto
    show ?thesis
    proof (cases "obligation_match_loop text ms acc")
      case (Inl e)
      then show ?thesis using Inr by simp
    next
      case obs: (Inr obs)
      then show ?thesis using Cons.IH [OF later] Inr by simp
    qed
  qed
qed

lemma deadline_pattern_loop_fails:
  "\<exists>p \<in> set ps. isl (fi True p text) \<Longrightarrow> isl (deadline_pattern_loop fi text ps acc)"
proof (induction ps arbitrary: acc)
  case Nil
  then show ?case by simp
next
  case (Cons p ps)
  show ?case
  proof (cases "fi True p text")
    case (Inl e)
    then show ?thesis by simp
  next
    case (Inr ms)
    then have later: "\<exists>q \<in> set ps. isl (fi True q text)" using Cons.prems by auto
    show ?thesis
    proof (cases "deadline_match_loop text ms acc")
      case (Inl e)
      then show ?thesis using Inr by simp
    next
      case ds: (Inr ds)
      then show ?thesis using Cons.IH [OF later] Inr by simp
    qed
  qed
qed

text \<open>
  Claim C8, as stated, fails for the families of \<^verbatim>\<open>extract_entities\<close>: its single
  \<^verbatim>\<open>except\<close> branch returns the empty dictionary. When the engine raises on the e-mail
  pattern, the date that the text contains is lost with every other family.
\<close>

theorem entity_failure_counterexample:
  "map ent_text (dict_get (extract_entities_with re_finditer ner_patterns ''Due 01/02/2024'') ''dates'' [])
     = [''01/02/2024'']
   \<and> extract_entities_with (engine_failing_on email_pattern) ner_patterns ''Due 01/02/2024'' = []"
  by code_simp

text \<open>
  Claim C8, amended. Whatever the engine does, \<^verbatim>\<open>analyze_document_entities\<close> returns, and
  each part of its result is what the extractor of that part returns on its own. When the
  engine raises on a pattern of the table, \<^verbatim>\<open>extract_entities\<close> returns the empty
  dictionary, for all families; when it raises on no pattern, every family has its entry.
  Each of the three specialised extractors returns the empty list when the engine raises
  on one of its patterns.
\<close>

theorem entity_stage_failure_handling:
  "(\<exists>r. analyze_document_entities fi text = Inr r
        \<and> an_entities r = extract_entities_with fi ner_patterns text
        \<and> an_key_parties r = extract_key_parties fi text
        \<and> an_obligations r = extract_obligations fi text
        \<and> an_dates_and_deadlines r = extract_dates_and_deadlines fi text)
   \<and> ((\<exists>fp \<in> set ner_patterns. \<exists>p \<in> set (snd fp). isl (fi True p text)) \<longrightarrow>
        extract_entities_with fi ner_patterns text = [])
   \<and> ((\<forall>fp \<in> set ner_patterns. \<forall>p \<in> set (snd fp). \<not> isl (fi True p text)) \<longrightarrow>
        map fst (extract_entities_with fi ner_patterns text) = map fst ner_patterns)
   \<and> ((\<exists>p \<in> set party_indicators. isl (fi True p text)) \<longrightarrow> extract_key_parties fi text = [])
   \<and> ((\<exists>p \<in> set obligation_patterns. isl (fi True p text)) \<longrightarrow> extract_obligations fi text = [])
   \<and> ((\<exists>p \<in> set date_context_patterns. isl (fi True p text)) \<longrightarrow>
        extract_dates_and_deadlines fi text = [])"
proof -
  have 1: "\<exists>r. analyze_document_entities fi text = Inr r
        \<and> an_entities r = extract_entities_with fi ner_patterns text
        \<and> an_key_parties r = extract_key_parties fi text
        \<and> an_obligations r = extract_obligations fi text
        \<and> an_dates_and_deadlines r = extract_dates_and_deadlines fi text"
    by (simp add: analyze_document_entities_def analyze_body_def Let_def)
  have 2: "(\<exists>fp \<in> set ner_patterns. \<exists>p \<in> set (snd fp). isl (fi True p text)) \<longrightarrow>
        extract_entities_with fi ner_patterns text = []"
  proof
    assume "\<exists>fp \<in> set ner_patterns. \<exists>p \<in> set (snd fp). isl (fi True p text)"
    then have "isl (entity_family_loop fi text ner_patterns [])"
      by (rule entity_family_loop_fails)
    then show "extract_entities_with fi ner_patterns text = []"
      by (cases "entity_family_loop fi text ner_patterns []")
         (simp_all add: extract_entities_with_def)
  qed
  have 3: "(\<forall>fp \<in> set ner_patterns. \<forall>p \<in> set (snd fp). \<not> isl (fi True p text)) \<longrightarrow>
        map fst (extract_entities_with fi ner_patterns text) = map fst ner_patterns"
  proof
    assume "\<forall>fp \<in> set ner_patterns. \<forall>p \<in> set (snd fp). \<not> isl (fi True p text)"
    then have "\<exists>d. entity_family_loop fi text ner_patterns [] = Inr d
        \<and> map fst d = map fst ([] :: (string \<times> entity list) list) @ map fst ner_patterns"
      by (rule entity_family_loop_ok [of ner_patterns fi "text" "[]"])
    then show "map fst (extract_entities_with fi ner_patterns text) = map fst ner_patterns"
      by (auto simp: extract_entities_with_def)
  qed
  have 4: "(\<exists>p \<in> set party_indicators. isl (fi True p text)) \<longrightarrow> extract_key_parties fi text = []"
  proof
    assume "\<exists>p \<in> set party_indicators. isl (fi True p text)"
    then have "isl (party_pattern_loop fi text party_indicators [])"
      by (rule party_pattern_loop_fails)
    then show "extract_key_parties fi text = []"
      by (cases "party_pattern_loop fi text party_indicators []")
         (simp_all add: extract_key_parties_def)
  qed
  have 5: "(\<exists>p \<in> set obligation_patterns. isl (fi True p text)) \<longrightarrow> extract_obligations fi text = []"
  proof
    assume "\<exists>p \<in> set obligation_patterns. isl (fi True p text)"
    then have "isl (obligation_pattern_loop fi text obligation_patterns [])"
      by (rule obligation_pattern_loop_fails)
    then show "extract_obligations fi text = []"
      by (cases "obligation_pattern_loop fi text obligation_patterns []")
         (simp_all add: extract_obligations_def)
  qed
  have 6: "(\<exists>p \<in> set date_context_patterns. isl (fi True p text)) \<longrightarrow>
        extract_dates_and_deadlines fi text = []"
  proof
    assume "\<exists>p \<in> set date_context_patterns. isl (fi True p text)"
    then have "isl (deadline_pattern_loop fi text date_context_patterns [])"
      by (rule deadline_pattern_loop_fails)
    then show "extract_dates_and_deadlines fi text = []"
      by (cases "deadline_pattern_loop fi text date_context_patterns []")
         (simp_all add: extract_dates_and_deadlines_def)
  qed
  show ?thesis using 1 2 3 4 5 6 by (intro conjI)
qed

theorem entity_stage_failure_handling_witness:
  "(\<exists>fp \<in> set ner_patterns. \<exists>p \<in> set (snd fp). isl (engine_failing_on email_pattern True p ''Due 01/02/2024''))
   \<and> extract_entities_with (engine_failing_on email_pattern) ner_patterns ''Due 01/02/2024'' = []
   \<and> map fst (extract_entities_with re_finditer ner_patterns ''Due 01/02/2024'') = map fst ner_patterns"
proof -
  have m: "(''email_addresses'', [email_pattern]) \<in> set ner_patterns"
    by (simp add: ner_patterns_def)
  have "isl (engine_failing_on email_pattern True email_pattern ''Due 01/02/2024'')"
    by (simp add: engine_failing_on_def)
  then have a: "\<exists>fp \<in> set ner_patterns. \<exists>p \<in> set (snd fp).
      isl (engine_failing_on email_pattern True p ''Due 01/02/2024'')"
    using m by force
  have b: "\<forall>fp \<in> set ner_patterns. \<forall>p \<in> set (snd fp). \<not> isl (re_finditer True p ''Due 01/02/2024'')"
    by (simp add: re_finditer_def)
  show ?thesis
    using a b entity_stage_failure_handling [of "engine_failing_on email_pattern" "''Due 01/02/2024''"]
      entity_stage_failure_handling [of re_finditer "''Due 01/02/2024''"]
    by blast
qed

section \<open>C4: the fall-back of the simplifier\<close>

lemma simplify_body_fails: "isl (simplify_body st clause) \<longleftrightarrow> stage_fails st clause"
  by (auto simp: simplify_body_def stage_fails_def Let_def split: sum.splits)

text \<open>
  Claim C4, as stated, fails: the fall-back result of \<^verbatim>\<open>simplify_clause\<close> carries the clause
  as it was passed, not its substitution, and the score 0, not 0.1. Here the substitution
  of the clause is \<^verbatim>\<open>before this\<close> and the scan for key points raises.
\<close>

theorem simplify_clause_fallback_counterexample:
  "apply_simplification_rules failing_stages ''heretofore'' = Inr ''before this''
   \<and> simplified_clause (simplify_clause failing_stages ''heretofore'') = ''heretofore''
   \<and> simplification_score (simplify_clause failing_stages ''heretofore'') = 0"
  by code_simp

text \<open>
  Claim C4, amended. When a stage of \<^verbatim>\<open>FallbackSimplifier.simplify_clause\<close> raises, the
  function does not raise: it returns the fall-back result, in which the original and the
  simplified text are both the clause as it was passed, the summary is
  \<^verbatim>\<open>Unable to simplify this clause.\<close>, the list of key points is empty, the score is 0 and
  the method is \<^verbatim>\<open>fallback\<close>. When no stage raises, the result is that of the rules.
\<close>

theorem simplify_clause_fallback:
  "(stage_fails st clause \<longrightarrow>
      simplify_clause st clause =
        \<lparr>original_clause = clause, simplified_clause = clause,
         plain_english_summary = ''Unable to simplify this clause.'', key_points = [],
         simplification_score = 0, method_name = ''fallback''\<rparr>)
   \<and> (\<not> stage_fails st clause \<longrightarrow>
        method_name (simplify_clause st clause) = ''rule_based''
      \<and> original_clause (simplify_clause st clause) = strip clause
      \<and> apply_simplification_rules st (strip clause)
          = Inr (simplified_clause (simplify_clause st clause)))"
proof (cases "simplify_body st clause")
  case (Inl e)
  then have "stage_fails st clause" using simplify_body_fails [of st clause] by simp
  then show ?thesis using Inl by (simp add: simplify_clause_def)
next
  case (Inr r)
  then have nf: "\<not> stage_fails st clause" using simplify_body_fails [of st clause] by simp
  have "method_name r = ''rule_based'' \<and> original_clause r = strip clause
      \<and> apply_simplification_rules st (strip clause) = Inr (simplified_clause r)"
    using Inr by (auto simp: simplify_body_def Let_def split: sum.splits)
  then show ?thesis using Inr nf by (simp add: simplify_clause_def)
qed

theorem simplify_clause_fallback_witness:
  "stage_fails failing_stages ''heretofore''
   \<and> simplify_clause failing_stages ''heretofore'' =
        \<lparr>original_clause = ''heretofore'', simplified_clause = ''heretofore'',
         plain_english_summary = ''Unable to simplify this clause.'', key_points = [],
         simplification_score = 0, method_name = ''fallback''\<rparr>"
proof -
  have h: "stage_fails failing_stages ''heretofore''"
    by (simp add: stage_fails_def failing_stages_def split: sum.splits)
  show ?thesis using h simplify_clause_fallback [of failing_stages "''heretofore''"] by blast
qed

section \<open>C3: the stages on the empty text\<close>

text \<open>The lightweight classifier divides by the number of words: on a text without a
  word it raises.\<close>

lemma minimal_classify_empty_raises:
  "minimal_classify_document '''' = Inl ZeroDivisionError"
  by code_simp

text \<open>
  Claim C3, as stated, fails for the clause segmenter of the parser: when no indicator
  splits the text it returns the whole text as one clause, and keeps a list without a
  meaningful clause as it is, so the empty text gives one empty clause.
\<close>

theorem empty_input_counterexample:
  "extract_clauses '''' = ['''']"
  by code_simp

text \<open>
  Claim C3, amended. On the empty text: the normalizer returns the empty text and
  statistics that are all 0; the full classifier returns \<^verbatim>\<open>unknown\<close> with confidence 0
  and is not confident; the entity extractor returns every family with an empty list, and
  so does the extractor of the minimal analyzer, with no party, obligation or date; the
  segmenter of the parser returns the list of one empty clause, the segmenter of the
  minimal analyzer the empty list. (The lightweight classifier is left out: see above.)
\<close>

theorem empty_input_stages:
  "minimal_preprocess_text '''' =
      ('''', \<lparr>word_count = 0, character_count = 0, sentence_count = 0,
              average_word_length = 0, average_sentence_length = 0\<rparr>)
   \<and> predicted_type (classify_document '''') = ''unknown''
   \<and> confidence (classify_document '''') = 0
   \<and> \<not> is_confident (classify_document '''')
   \<and> map fst (extract_entities '''') = map fst ner_patterns
   \<and> concat (map snd (extract_entities '''')) = []
   \<and> map fst (me_entities (minimal_extract_entities '''')) = map fst entity_patterns
   \<and> concat (map snd (me_entities (minimal_extract_entities ''''))) = []
   \<and> me_key_parties (minimal_extract_entities '''') = []
   \<and> me_obligations (minimal_extract_entities '''') = []
   \<and> me_dates_and_deadlines (minimal_extract_entities '''') = []
   \<and> extract_clauses '''' = ['''']
   \<and> minimal_extract_clauses '''' = []"
proof -
  have 1: "minimal_preprocess_text '''' =
      ('''', \<lparr>word_count = 0, character_count = 0, sentence_count = 0,
              average_word_length = 0, average_sentence_length = 0\<rparr>)" by code_simp
  have 2: "predicted_type (classify_document '''') = ''unknown''
      \<and> confidence (classify_document '''') = 0
      \<and> \<not> is_confident (classify_document '''')" by code_simp
  have 3: "map fst (extract_entities '''') = map fst ner_patterns
      \<and> concat (map snd (extract_entities '''')) = []" by code_simp
  have 4: "map fst (me_entities (minimal_extract_entities '''')) = map fst entity_patterns
      \<and> concat (map snd (me_entities (minimal_extract_entities ''''))) = []
      \<and> me_key_parties (minimal_extract_entities '''') = []
      \<and> me_obligations (minimal_extract_entities '''') = []
      \<and> me_dates_and_deadlines (minimal_extract_entities '''') = []" by code_simp
  have 5: "extract_clauses '''' = [''''] \<and> minimal_extract_clauses '''' = []" by code_simp
  show ?thesis using 1 2 3 4 5 by (intro conjI) simp_all
qed

end
